theory Spec2Isabelle
  imports Complex_Main
begin

section \<open>Floating-point values\<close>

text \<open>
  The program computes with Python and numpy floats.  Their values are the elements of
  an arbitrary type \<open>'f\<close>, and the operations the program applies to them are the
  fields of a record that every function of the model takes as its first argument:
  the literal \<open>0.0\<close>, \<open>np.NaN\<close>, the test \<open>np.isnan\<close>, addition, multiplication and
  division, the comparison \<open>x != 0.0\<close>, the test \<open>math.isclose(x, 0.0)\<close> (default
  tolerances), \<open>np.sum\<close> of a one-dimensional array, and the conversion \<open>float(k)\<close> of
  an integer.  Nothing is assumed of these operations unless a theorem says so, so what
  is proved for every such record holds of the rounded arithmetic of the machine, with
  its infinities, its signed zeros and whatever order \<open>np.sum\<close> adds in.
\<close>

record 'f float_ops =
  op_zero :: 'f
  op_nan :: 'f
  op_isnan :: "'f \<Rightarrow> bool"
  op_add :: "'f \<Rightarrow> 'f \<Rightarrow> 'f"
  op_mul :: "'f \<Rightarrow> 'f \<Rightarrow> 'f"
  op_div :: "'f \<Rightarrow> 'f \<Rightarrow> 'f"
  op_nonzero :: "'f \<Rightarrow> bool"
  op_isclose_zero :: "'f \<Rightarrow> bool"
  op_sum :: "'f list \<Rightarrow> 'f"
  op_float :: "nat \<Rightarrow> 'f"

subsection \<open>Exact arithmetic\<close>

text \<open>
  One instance is exact arithmetic: a value is a real number or the not-a-number marker
  \<open>NaN\<close>, the operations are those of the reals and propagate \<open>NaN\<close>.  It is the
  arithmetic of the statements that are made "in exact arithmetic", and the one in
  which concrete examples are evaluated.
\<close>

datatype pyfloat = NaN | Fin real

fun isnan :: "pyfloat \<Rightarrow> bool" where
  "isnan NaN = True"
| "isnan (Fin x) = False"

fun fadd :: "pyfloat \<Rightarrow> pyfloat \<Rightarrow> pyfloat" where
  "fadd (Fin x) (Fin y) = Fin (x + y)"
| "fadd NaN b = NaN"
| "fadd a NaN = NaN"

fun fmul :: "pyfloat \<Rightarrow> pyfloat \<Rightarrow> pyfloat" where
  "fmul (Fin x) (Fin y) = Fin (x * y)"
| "fmul NaN b = NaN"
| "fmul a NaN = NaN"

text \<open>
  Every division of the program is guarded by a test that the divisor is not zero, so
  the value chosen here for a zero divisor is never used.
\<close>

fun fdiv :: "pyfloat \<Rightarrow> pyfloat \<Rightarrow> pyfloat" where
  "fdiv (Fin x) (Fin y) = (if y = 0 then NaN else Fin (x / y))"
| "fdiv NaN b = NaN"
| "fdiv a NaN = NaN"

text \<open>\<open>math.isclose(a, b)\<close> with its default \<open>rel_tol = 1e-09\<close>, \<open>abs_tol = 0.0\<close>.\<close>

definition rel_tol :: real where
  "rel_tol = 1 / 1000000000"

fun isclose :: "pyfloat \<Rightarrow> pyfloat \<Rightarrow> bool" where
  "isclose (Fin a) (Fin b) =
     (a = b \<or> \<bar>a - b\<bar> \<le> max (rel_tol * max \<bar>a\<bar> \<bar>b\<bar>) 0)"
| "isclose NaN b = False"
| "isclose a NaN = False"

text \<open>The exact sum of a one-dimensional array.\<close>

definition np_sum :: "pyfloat list \<Rightarrow> pyfloat" where
  "np_sum xs = foldl fadd (Fin 0) xs"

definition exact_ops :: "pyfloat float_ops" where
  "exact_ops =
     \<lparr> op_zero = Fin 0, op_nan = NaN, op_isnan = isnan, op_add = fadd, op_mul = fmul,
       op_div = fdiv, op_nonzero = (\<lambda>x. x \<noteq> Fin 0),
       op_isclose_zero = (\<lambda>x. isclose x (Fin 0)), op_sum = np_sum,
       op_float = (\<lambda>k. Fin (real k)) \<rparr>"

section \<open>Errors and array primitives\<close>

datatype error =
    AssertionError string
  | NotImplementedError string
  | IndexError
  | ValueError

fun ebind :: "error + 'a \<Rightarrow> ('a \<Rightarrow> error + 'b) \<Rightarrow> error + 'b" where
  "ebind (Inl e) f = Inl e"
| "ebind (Inr x) f = f x"

text \<open>A \<open>for x in xs: body\<close> loop over a state, stopping at the first exception.\<close>

fun for_loop :: "'a list \<Rightarrow> ('a \<Rightarrow> 's \<Rightarrow> error + 's) \<Rightarrow> 's \<Rightarrow> error + 's" where
  "for_loop [] body s = Inr s"
| "for_loop (x # xs) body s = ebind (body x s) (for_loop xs body)"

text \<open>
  numpy indexing of one axis of length \<open>len\<close> by an integer: a negative index counts
  from the end, anything else out of range raises \<open>IndexError\<close>.
\<close>

definition np_index :: "nat \<Rightarrow> int \<Rightarrow> error + nat" where
  "np_index len k =
     (if 0 \<le> k \<and> k < int len then Inr (nat k)
      else if - int len \<le> k \<and> k < 0 then Inr (nat (k + int len))
      else Inl IndexError)"

definition get1 :: "'a list \<Rightarrow> int \<Rightarrow> error + 'a" where
  "get1 xs k = ebind (np_index (length xs) k) (\<lambda>k'. Inr (xs ! k'))"

definition get2 :: "'a list list \<Rightarrow> int \<Rightarrow> int \<Rightarrow> error + 'a" where
  "get2 a j i = ebind (get1 a j) (\<lambda>row. get1 row i)"

definition set2 :: "'a list list \<Rightarrow> int \<Rightarrow> int \<Rightarrow> 'a \<Rightarrow> error + 'a list list" where
  "set2 a j i v =
     ebind (np_index (length a) j) (\<lambda>j'.
     ebind (np_index (length (a ! j')) i) (\<lambda>i'.
       Inr (a[j' := (a ! j')[i' := v]])))"

text \<open>
  The bounds of a Python slice \<open>[start:stop]\<close> on an axis of length \<open>len\<close>: a negative
  bound counts from the end, and both are clipped to the axis.
\<close>

definition slice_bound :: "nat \<Rightarrow> int \<Rightarrow> nat" where
  "slice_bound len k = (if k < 0 then nat (max 0 (k + int len)) else min (nat k) len)"

text \<open>
  Assignment \<open>a[start:stop] = vs\<close> to a slice of a one-dimensional array: the value
  must have the slice's length, or length one (it is then broadcast); any other length
  raises \<open>ValueError\<close>.
\<close>

definition slice_set :: "'a list \<Rightarrow> int option \<Rightarrow> int option \<Rightarrow> 'a list \<Rightarrow> error + 'a list" where
  "slice_set a start stop vs =
     (let lo = (case start of None \<Rightarrow> 0 | Some k \<Rightarrow> slice_bound (length a) k);
          hi = (case stop of None \<Rightarrow> length a | Some k \<Rightarrow> slice_bound (length a) k);
          m = hi - lo
      in if length vs = m then Inr (take lo a @ vs @ drop (lo + m) a)
         else if length vs = 1 then Inr (take lo a @ replicate m (hd vs) @ drop (lo + m) a)
         else Inl ValueError)"

text \<open>\<open>np.full(k, v)\<close> for a one-dimensional array; a negative length raises.\<close>

definition np_full1 :: "int \<Rightarrow> 'a \<Rightarrow> error + 'a list" where
  "np_full1 k v = (if k < 0 then Inl ValueError else Inr (replicate (nat k) v))"

definition np_full2 :: "nat \<Rightarrow> nat \<Rightarrow> 'a \<Rightarrow> 'a list list" where
  "np_full2 rows cols v = replicate rows (replicate cols v)"

section \<open>Logging\<close>

datatype log_level = DEBUG | INFO | WARNING

type_synonym log_record = "log_level \<times> string"

definition digit_char :: "nat \<Rightarrow> char" where
  "digit_char d = char_of (48 + d)"

fun str_nat_fuel :: "nat \<Rightarrow> nat \<Rightarrow> string" where
  "str_nat_fuel 0 k = [digit_char (k mod 10)]"
| "str_nat_fuel (Suc f) k =
     (if k < 10 then [digit_char k] else str_nat_fuel f (k div 10) @ [digit_char (k mod 10)])"

text \<open>Decimal rendering of a natural number, as an f-string gives it.\<close>

definition str_nat :: "nat \<Rightarrow> string" where
  "str_nat k = str_nat_fuel k k"

section \<open>TriMeshStencil: construction\<close>

text \<open>
  The argument of the constructor after \<open>np.array(pattern, dtype = float)\<close>: its number
  of dimensions and, for a one-dimensional array, its entries.  Nothing else of an array
  of another rank is read, since the rank is asserted first.
\<close>

record 'f ndarray =
  ndim :: nat
  entries :: "'f list"

record 'f stencil =
  self_n :: nat
  self_pattern :: "'f list"
  self_start_ip :: "int list"
  self_row_length :: "int list"
  self_half_hex :: "'f list list"

text \<open>
  The \<open>normalise\<close> branch: the two assertions, the in-place scaling
  \<open>pattern *= normalise / t\<close> and the loop \<open>pattern[i] /= float(6 * i)\<close> over
  \<open>range(1, n)\<close>.
\<close>

definition ring_divide :: "'f float_ops \<Rightarrow> nat \<Rightarrow> 'f list \<Rightarrow> 'f list" where
  "ring_divide ops i p = p[i := op_div ops (p ! i) (op_float ops (6 * i))]"

definition normalise_pattern :: "'f float_ops \<Rightarrow> 'f list \<Rightarrow> 'f option \<Rightarrow> error + 'f list" where
  "normalise_pattern ops p normalise =
     (case normalise of
        None \<Rightarrow> Inr p
      | Some nv \<Rightarrow>
          if op_isclose_zero ops nv
          then Inl (AssertionError ''calling code must scale to stencil pattern to sum to zero'')
          else let t = op_sum ops p in
            if op_isclose_zero ops t
            then Inl (AssertionError ''pattern sums to zero and cannot be normalised to another value'')
            else Inr (fold (ring_divide ops) [1..<length p] (map (\<lambda>x. op_mul ops x (op_div ops nv t)) p)))"

text \<open>
  The list \<open>half_hex\<close> of triples (start column offset, row length, row values) built
  in the constructor; the state of the loop over \<open>jp\<close> is the running \<open>row_length\<close> and
  the list so far.
\<close>

type_synonym 'f hex_row = "int \<times> int \<times> 'f list"

definition half_hex_row :: "'f list \<Rightarrow> nat \<Rightarrow> int \<times> 'f hex_row list \<Rightarrow> error + (int \<times> 'f hex_row list)" where
  "half_hex_row p jp st =
     (let n = length p;
          start_ip = - (int n - 1) + int (jp div 2);
          row_length = fst st - 1
      in ebind (get1 p (int jp)) (\<lambda>pjp.
         ebind (np_full1 row_length pjp) (\<lambda>row_v.
         ebind (if int jp < int n - 1
                then (let sub_p = drop (jp + 1) p;
                          sub_len = length sub_p
                      in ebind (slice_set row_v (Some (- int sub_len)) None sub_p) (\<lambda>row_v'.
                         slice_set row_v' None (Some (int sub_len)) (rev sub_p)))
                else Inr row_v) (\<lambda>row_v''.
           Inr (row_length, snd st @ [(start_ip, row_length, row_v'')])))))"

definition build_half_hex :: "'f list \<Rightarrow> error + 'f hex_row list" where
  "build_half_hex p =
     (let n = length p;
          row_length = 2 * int n - 1;
          half_hex = [(- (int n - 1), row_length, rev (drop 1 p) @ p)]
      in ebind (for_loop [1..<n] (half_hex_row p) (row_length, half_hex)) (\<lambda>st. Inr (snd st)))"

text \<open>
  The conversion to arrays: \<open>start_ip\<close>, \<open>row_length\<close>, and the rectangular buffer of
  shape \<open>(n, 2n - 1)\<close> filled with \<open>NaN\<close>, into whose row \<open>jp\<close> the first
  \<open>row_length[jp]\<close> slots receive the row values.
\<close>

definition fill_row :: "int list \<Rightarrow> 'f hex_row list \<Rightarrow> nat \<Rightarrow> 'f list list \<Rightarrow> error + 'f list list" where
  "fill_row row_length half_hex jp buf =
     ebind (get1 row_length (int jp)) (\<lambda>rl.
     ebind (get1 half_hex (int jp)) (\<lambda>h.
     ebind (np_index (length buf) (int jp)) (\<lambda>j'.
     ebind (slice_set (buf ! j') None (Some rl) (snd (snd h))) (\<lambda>row.
       Inr (buf[j' := row])))))"

definition to_arrays :: "'f float_ops \<Rightarrow> 'f list \<Rightarrow> 'f hex_row list \<Rightarrow> error + 'f stencil" where
  "to_arrays ops p half_hex =
     (let n = length p;
          start_ip = map fst half_hex;
          row_length = map (\<lambda>h. fst (snd h)) half_hex
      in ebind (for_loop [0..<n] (fill_row row_length half_hex) (np_full2 n (2 * n - 1) (op_nan ops)))
           (\<lambda>buf. Inr \<lparr> self_n = n, self_pattern = p, self_start_ip = start_ip,
                        self_row_length = row_length, self_half_hex = buf \<rparr>))"

text \<open>
  The constructor \<open>TriMeshStencil.__init__\<close>.  It returns the exception or the built
  object, and the log records it emitted (the size warning is logged after the three
  assertions on the pattern and before normalisation).
\<close>

definition size_warning :: "nat \<Rightarrow> log_record list" where
  "size_warning len =
     (if len > 50 then [(WARNING, ''very large stencil pattern length: '' @ str_nat len)] else [])"

definition TriMeshStencil_init :: "'f float_ops \<Rightarrow> 'f ndarray \<Rightarrow> 'f option \<Rightarrow> (error + 'f stencil) \<times> log_record list" where
  "TriMeshStencil_init ops pattern normalise =
     (if ndim pattern \<noteq> 1
      then (Inl (AssertionError ''tri mesh stencil pattern must be one dimensional''), [])
      else let p = entries pattern in
        if \<not> length p > 1
        then (Inl (AssertionError ''tri mesh stancil pattern must contain at least two elements''), [])
        else if list_ex (op_isnan ops) p
        then (Inl (AssertionError ''tri mesh stencil may not contain NaN''), [])
        else (ebind (normalise_pattern ops p normalise) (\<lambda>p'.
              ebind (build_half_hex p') (to_arrays ops p')),
              size_warning (length p)))"

section \<open>The convolution kernel\<close>

text \<open>
  One tap of \<open>apply_stencil_nanmean\<close>: a value that is not \<open>NaN\<close> adds its weight
  to \<open>ws\<close> and value times weight to \<open>a\<close>; the state is the pair \<open>(a, ws)\<close>.
\<close>

definition accumulate :: "'f float_ops \<Rightarrow> 'f \<Rightarrow> 'f \<Rightarrow> 'f \<times> 'f \<Rightarrow> 'f \<times> 'f" where
  "accumulate ops v s acc =
     (if \<not> op_isnan ops v then (op_add ops (fst acc) (op_mul ops v s), op_add ops (snd acc) s) else acc)"

text \<open>The body of the loop over \<open>ip\<close>.\<close>

definition ip_body ::
  "'f float_ops \<Rightarrow> 'f list list \<Rightarrow> 'f list list \<Rightarrow> nat \<Rightarrow> nat \<Rightarrow> nat \<Rightarrow> int \<Rightarrow> int \<Rightarrow> int \<Rightarrow> nat \<Rightarrow>
   'f \<times> 'f \<Rightarrow> error + 'f \<times> 'f" where
  "ip_body ops half_hex tm_z i jp js_odd i_st j_sm j_sp ip acc =
     (let i_s = int i + i_st + int ip + int js_odd
      in ebind (get2 tm_z j_sm i_s) (\<lambda>v.
         ebind (get2 half_hex (int jp) (int ip)) (\<lambda>s.
           let acc1 = accumulate ops v s acc
           in if jp \<noteq> 0
              then ebind (get2 tm_z j_sp i_s) (\<lambda>v'. Inr (accumulate ops v' s acc1))
              else Inr acc1)))"

text \<open>The body of the loop over \<open>jp\<close>.\<close>

definition jp_body ::
  "'f float_ops \<Rightarrow> int list \<Rightarrow> int list \<Rightarrow> 'f list list \<Rightarrow> 'f list list \<Rightarrow> nat \<Rightarrow> nat \<Rightarrow> nat \<Rightarrow>
   'f \<times> 'f \<Rightarrow> error + 'f \<times> 'f" where
  "jp_body ops start_ip row_length half_hex tm_z j i jp acc =
     (let j_odd = j mod 2;
          js_odd = (jp mod 2) * j_odd
      in ebind (get1 start_ip (int jp)) (\<lambda>i_st.
         let j_sm = int j - int jp;
             j_sp = int j + int jp
         in ebind (get1 row_length (int jp)) (\<lambda>rl.
              for_loop [0..<nat rl] (ip_body ops half_hex tm_z i jp js_odd i_st j_sm j_sp) acc)))"

text \<open>
  The body of the loop over \<open>i\<close>: the accumulators start at zero, and the output cell
  is written only when \<open>ws != 0.0\<close> (which holds for a \<open>NaN\<close> total as well).
\<close>

definition cell_sums ::
  "'f float_ops \<Rightarrow> nat \<Rightarrow> int list \<Rightarrow> int list \<Rightarrow> 'f list list \<Rightarrow> 'f list list \<Rightarrow> nat \<Rightarrow> nat \<Rightarrow>
   error + 'f \<times> 'f" where
  "cell_sums ops n start_ip row_length half_hex tm_z j i =
     for_loop [0..<n] (jp_body ops start_ip row_length half_hex tm_z j i) (op_zero ops, op_zero ops)"

definition i_body ::
  "'f float_ops \<Rightarrow> nat \<Rightarrow> int list \<Rightarrow> int list \<Rightarrow> 'f list list \<Rightarrow> 'f list list \<Rightarrow> nat \<Rightarrow> nat \<Rightarrow>
   'f list list \<Rightarrow> error + 'f list list" where
  "i_body ops n start_ip row_length half_hex tm_z j i applied =
     ebind (cell_sums ops n start_ip row_length half_hex tm_z j i) (\<lambda>acc.
       if op_nonzero ops (snd acc)
       then set2 applied (int j) (int i) (op_div ops (fst acc) (snd acc))
       else Inr applied)"

text \<open>
  \<open>apply_stencil_nanmean\<close>.  The array \<open>applied\<close>, which the source mutates in place,
  is passed in and returned updated; \<open>tm_z\<close> is only read.  (The one caller passes two
  distinct, freshly allocated arrays.)
\<close>

definition apply_stencil_nanmean ::
  "'f float_ops \<Rightarrow> nat \<Rightarrow> int list \<Rightarrow> int list \<Rightarrow> 'f list list \<Rightarrow> 'f list list \<Rightarrow> 'f list list \<Rightarrow>
   nat \<Rightarrow> nat \<Rightarrow> nat \<Rightarrow> error + 'f list list" where
  "apply_stencil_nanmean ops n start_ip row_length half_hex tm_z applied border onj oni =
     for_loop [border..<border + onj]
       (\<lambda>j. for_loop [border..<border + oni] (i_body ops n start_ip row_length half_hex tm_z j))
       applied"

section \<open>TriMeshStencil.apply\<close>

text \<open>
  Arrays live in a store: an address is a natural number, \<open>next_free\<close> is the first
  address not yet allocated, and the log collects the records emitted.
\<close>

record 'f world =
  heap :: "nat \<Rightarrow> 'f list list"
  next_free :: nat
  log :: "log_record list"

definition alloc :: "'f list list \<Rightarrow> 'f world \<Rightarrow> nat \<times> 'f world" where
  "alloc a w = (next_free w, w\<lparr> heap := (heap w)(next_free w := a), next_free := Suc (next_free w) \<rparr>)"

definition store :: "nat \<Rightarrow> 'f list list \<Rightarrow> 'f world \<Rightarrow> 'f world" where
  "store r a w = w\<lparr> heap := (heap w)(r := a) \<rparr>"

definition log_info :: "string \<Rightarrow> 'f world \<Rightarrow> 'f world" where
  "log_info msg w = w\<lparr> log := log w @ [(INFO, msg)] \<rparr>"

text \<open>
  Modelled from the spec: the class \<open>TriMesh\<close> (the lattice) is not among the sources.
  It is the record of what the spec lists at the lattice interface: the owning model, the
  triangle edge length, row and column counts, coordinate origin, length-unit tag, title,
  role tag, reference-frame identifier, and the dense array of the lattice, of which
  only the z channel is read; \<open>mesh_z_array\<close> is the address of that channel, which
  \<open>full_array_ref()[:, :, 2]\<close> refers to without copying.
\<close>

record 'f tri_mesh =
  mesh_model :: nat
  mesh_t_side :: 'f
  mesh_nj :: nat
  mesh_ni :: nat
  mesh_origin :: "'f \<times> 'f \<times> 'f"
  mesh_z_uom :: string
  mesh_title :: "string option"
  mesh_surface_role :: string
  mesh_crs_uuid :: string
  mesh_z_array :: nat

text \<open>
  Modelled from the spec: the constructor \<open>TriMesh(...)\<close> with \<open>z_values\<close> given (not
  among the sources) makes the lattice sink, a new lattice value carrying the geometric
  metadata passed to it and the given z channel, held in an array of its own.
\<close>

definition TriMesh_new ::
  "nat \<Rightarrow> 'f \<Rightarrow> nat \<Rightarrow> nat \<Rightarrow> 'f \<times> 'f \<times> 'f \<Rightarrow> string \<Rightarrow> string option \<Rightarrow>
   'f list list \<Rightarrow> string \<Rightarrow> string \<Rightarrow> 'f world \<Rightarrow> 'f tri_mesh \<times> 'f world" where
  "TriMesh_new model t_side nj ni origin z_uom title z_values surface_role crs_uuid w =
     (let (r, w') = alloc z_values w
      in (\<lparr> mesh_model = model, mesh_t_side = t_side, mesh_nj = nj, mesh_ni = ni,
             mesh_origin = origin, mesh_z_uom = z_uom, mesh_title = title,
             mesh_surface_role = surface_role, mesh_crs_uuid = crs_uuid,
             mesh_z_array = r \<rparr>, w'))"

text \<open>
  Reading a two-dimensional slice \<open>a[r0:r1, c0:c1]\<close> (bounds are clipped, nothing
  raises), and assigning to one: the value must have the shape of the slice, otherwise
  \<open>ValueError\<close>.  (numpy would also broadcast a value with a single row or column; the
  z channel of a lattice always has the shape \<open>(nj, ni)\<close>.)
\<close>

definition slice2 :: "'a list list \<Rightarrow> nat \<Rightarrow> nat \<Rightarrow> nat \<Rightarrow> nat \<Rightarrow> 'a list list" where
  "slice2 a r0 r1 c0 c1 = map (\<lambda>row. take (c1 - c0) (drop c0 row)) (take (r1 - r0) (drop r0 a))"

definition width :: "'a list list \<Rightarrow> nat" where
  "width a = (case a of [] \<Rightarrow> 0 | row # _ \<Rightarrow> length row)"

definition block_set :: "'a list list \<Rightarrow> nat \<Rightarrow> nat \<Rightarrow> nat \<Rightarrow> nat \<Rightarrow> 'a list list \<Rightarrow> error + 'a list list" where
  "block_set a r0 r1 c0 c1 src =
     (let rows = min r1 (length a) - min r0 (length a);
          cols = min c1 (width a) - min c0 (width a)
      in if length src = rows \<and> list_all (\<lambda>s. length s = cols) src
         then Inr (map (\<lambda>r. if r0 \<le> r \<and> r < r0 + rows
                            then take c0 (a ! r) @ src ! (r - r0) @ drop (c0 + cols) (a ! r)
                            else a ! r) [0..<length a])
         else Inl ValueError)"

definition title_str :: "string option \<Rightarrow> string" where
  "title_str t = (case t of None \<Rightarrow> ''None'' | Some s \<Rightarrow> s)"

text \<open>
  \<open>TriMeshStencil.apply\<close>: the result is the exception raised or the new lattice,
  together with the world after the call.
\<close>

definition apply_stencil ::
  "'f float_ops \<Rightarrow> 'f stencil \<Rightarrow> 'f tri_mesh \<Rightarrow> bool \<Rightarrow> string option \<Rightarrow> 'f world \<Rightarrow> (error + 'f tri_mesh) \<times> 'f world" where
  "apply_stencil ops self tri_mesh handle_nan title w0 =
     (let w1 = log_info (''applying stencil to tri mesh: '' @ title_str (mesh_title tri_mesh)) w0;
          border = (if self_n self mod 2 \<noteq> 0 then self_n self + 1 else self_n self);
          e_nj = mesh_nj tri_mesh + 2 * border;
          e_ni = mesh_ni tri_mesh + 2 * border;
          (z_values, w2) = alloc (np_full2 e_nj e_ni (if handle_nan then op_nan ops else op_zero ops)) w1
      in case block_set (heap w2 z_values) border (border + mesh_nj tri_mesh)
                border (border + mesh_ni tri_mesh) (heap w2 (mesh_z_array tri_mesh)) of
           Inl e \<Rightarrow> (Inl e, w2)
         | Inr z \<Rightarrow>
             (let w3 = store z_values z w2;
                  (applied, w4) = alloc (np_full2 e_nj e_ni (op_nan ops)) w3
              in if handle_nan
                 then (case apply_stencil_nanmean ops (self_n self) (self_start_ip self)
                              (self_row_length self) (self_half_hex self) (heap w4 z_values)
                              (heap w4 applied) border (mesh_nj tri_mesh) (mesh_ni tri_mesh) of
                         Inl e \<Rightarrow> (Inl e, w4)
                       | Inr applied' \<Rightarrow>
                           (let w5 = store applied applied' w4;
                                (tm, w6) = TriMesh_new (mesh_model tri_mesh) (mesh_t_side tri_mesh)
                                   (mesh_nj tri_mesh) (mesh_ni tri_mesh) (mesh_origin tri_mesh)
                                   (mesh_z_uom tri_mesh) title
                                   (slice2 (heap w5 applied) border (border + mesh_nj tri_mesh)
                                      border (border + mesh_ni tri_mesh))
                                   (mesh_surface_role tri_mesh) (mesh_crs_uuid tri_mesh) w5
                            in (Inr tm, w6)))
                 else (Inl (NotImplementedError
                         ''only smoothing style tri mesh stencil application currently available''),
                       w4)))"

section \<open>FrontierFeature.is_equivalent\<close>

text \<open>
  A frontier feature object: its identity as a Python object (\<open>self is other\<close> compares
  identities), its UUID, its title (\<open>feature_name\<close> is an alias for it) and its extra
  metadata.  The other argument of \<open>is_equivalent\<close> is any Python value.
\<close>

record frontier_feature =
  ff_id :: nat
  ff_uuid :: string
  ff_title :: "string option"
  ff_extra_metadata :: "(string \<times> string) list"

datatype py_value =
    PyNone
  | PyFrontierFeature frontier_feature
  | PyOther string

abbreviation feature_name :: "frontier_feature \<Rightarrow> string option" where
  "feature_name \<equiv> ff_title"

text \<open>
  The helpers \<open>bu.matching_uuids\<close> and \<open>equivalent_extra_metadata\<close> are imported from
  modules that are not among the sources; they are parameters of the model.
\<close>

definition is_equivalent ::
  "(string \<Rightarrow> string \<Rightarrow> bool) \<Rightarrow> (frontier_feature \<Rightarrow> frontier_feature \<Rightarrow> bool) \<Rightarrow>
   frontier_feature \<Rightarrow> py_value \<Rightarrow> bool \<Rightarrow> bool" where
  "is_equivalent matching_uuids equivalent_extra_metadata self other check_extra_metadata =
     (case other of
        PyNone \<Rightarrow> False
      | PyOther x \<Rightarrow> False
      | PyFrontierFeature other' \<Rightarrow>
          if ff_id self = ff_id other' \<or> matching_uuids (ff_uuid self) (ff_uuid other')
          then True
          else if check_extra_metadata \<and> \<not> equivalent_extra_metadata self other'
          then False
          else feature_name self = feature_name other')"

section \<open>The built stencil in closed form\<close>

text \<open>
  What the constructor builds for a pattern \<open>p\<close> (after normalisation), written out
  directly: the values of row \<open>jp\<close>, the triple appended for it, the row of the
  rectangular buffer (padded with \<open>NaN\<close>), the buffer after the first \<open>k\<close> rows have
  been filled, and the whole object.  The lemmas below prove that the loops of the
  constructor compute exactly these.
\<close>

definition row_values :: "'f list \<Rightarrow> nat \<Rightarrow> 'f list" where
  "row_values p jp = rev (drop (jp + 1) p) @ replicate (jp + 1) (p ! jp) @ drop (jp + 1) p"

definition row_spec :: "'f list \<Rightarrow> nat \<Rightarrow> 'f hex_row" where
  "row_spec p jp =
     (- (int (length p) - 1) + int (jp div 2), 2 * int (length p) - 1 - int jp, row_values p jp)"

definition buffer_row :: "'f float_ops \<Rightarrow> 'f list \<Rightarrow> nat \<Rightarrow> 'f list" where
  "buffer_row ops p jp = row_values p jp @ replicate jp (op_nan ops)"

definition buffer_upto :: "'f float_ops \<Rightarrow> 'f list \<Rightarrow> nat \<Rightarrow> 'f list list" where
  "buffer_upto ops p k =
     map (\<lambda>jp. if jp < k then buffer_row ops p jp else replicate (2 * length p - 1) (op_nan ops)) [0..<length p]"

definition built :: "'f float_ops \<Rightarrow> 'f list \<Rightarrow> 'f stencil" where
  "built ops p = \<lparr> self_n = length p, self_pattern = p,
      self_start_ip = map (\<lambda>jp. - (int (length p) - 1) + int (jp div 2)) [0..<length p],
      self_row_length = map (\<lambda>jp. 2 * int (length p) - 1 - int jp) [0..<length p],
      self_half_hex = map (buffer_row ops p) [0..<length p] \<rparr>"

text \<open>
  The hex-graph distance from the centre of the stencil to the lattice position that
  slot \<open>ip\<close> of row \<open>jp\<close> of the half-hex buffer stands for, for a stencil of size
  \<open>n\<close>.  The position lies \<open>jp\<close> rows from the centre row; \<open>dx2\<close> is twice its
  horizontal offset from the centre in units of the edge length (slot \<open>n - 1\<close> of row
  0 is the centre, and each row further out starts half an edge further in).  On a
  triangular lattice a position \<open>jp\<close> rows away is reached in \<open>jp\<close> diagonal steps,
  which cover a horizontal offset of up to \<open>jp / 2\<close>, plus one horizontal step for
  each further unit of offset.
\<close>

definition hex_distance :: "nat \<Rightarrow> nat \<Rightarrow> nat \<Rightarrow> nat" where
  "hex_distance n jp ip =
     (let dx2 = 2 * (int ip - (int n - 1)) + int jp
      in max jp (nat ((\<bar>dx2\<bar> + int jp) div 2)))"

text \<open>
  The sum of the weights over the whole hexagon, for a pattern of finite weights: the
  centre weight, plus for each ring \<open>k \<ge> 1\<close> its weight times its \<open>6k\<close> positions.
\<close>

definition hexagon_total :: "real list \<Rightarrow> real" where
  "hexagon_total qs = qs ! 0 + (\<Sum>k = 1..<length qs. qs ! k * (6 * real k))"

text \<open>
  The normalised pattern in closed form, for finite weights \<open>ps\<close> and target \<open>S\<close>:
  every weight scaled by \<open>S / sum ps\<close>, and each ring weight \<open>k \<ge> 1\<close> then divided by
  \<open>6k\<close>.
\<close>

definition normalised :: "real list \<Rightarrow> real \<Rightarrow> real list" where
  "normalised ps S =
     map (\<lambda>k. if k = 0 then ps ! k * (S / sum_list ps)
                else ps ! k * (S / sum_list ps) / (6 * real k)) [0..<length ps]"

section \<open>The convolution as the specification states it\<close>

text \<open>
  The value of the lattice \<open>z\<close> at row \<open>r\<close> and column \<open>c\<close>, with every position outside
  the lattice missing: this is what the padded lattice holds at \<open>(r + border, c + border)\<close>.
\<close>

definition lattice_at :: "'f float_ops \<Rightarrow> 'f list list \<Rightarrow> int \<Rightarrow> int \<Rightarrow> 'f" where
  "lattice_at ops z r c =
     (if 0 \<le> r \<and> r < int (length z) \<and> 0 \<le> c \<and> c < int (length (z ! nat r))
      then z ! nat r ! nat c else op_nan ops)"

text \<open>
  The taps of the stencil for the output cell \<open>(j, i)\<close>, in lattice coordinates, in the
  order they are read, each with its weight: for every row offset \<open>jp\<close> and every slot
  \<open>ip\<close> below \<open>row_length[jp]\<close>, the tap in row \<open>j - jp\<close> at column
  \<open>i + start_ip[jp] + ip\<close>, shifted by \<open>j mod 2\<close> when \<open>jp\<close> is odd, and for \<open>jp \<ge> 1\<close>
  also the tap at the same column of the mirrored row \<open>j + jp\<close>.
\<close>

definition slot_taps :: "'f stencil \<Rightarrow> nat \<Rightarrow> nat \<Rightarrow> nat \<Rightarrow> nat \<Rightarrow> (int \<times> int \<times> 'f) list" where
  "slot_taps st j i jp ip =
     (let col = int i + self_start_ip st ! jp + int ip + (if odd jp then int (j mod 2) else 0);
          weight = self_half_hex st ! jp ! ip
      in (int j - int jp, col, weight)
         # (if 1 \<le> jp then [(int j + int jp, col, weight)] else []))"

definition taps :: "'f stencil \<Rightarrow> nat \<Rightarrow> nat \<Rightarrow> (int \<times> int \<times> 'f) list" where
  "taps st j i =
     concat (map (\<lambda>jp. concat (map (slot_taps st j i jp) [0..<nat (self_row_length st ! jp)]))
       [0..<self_n st])"

text \<open>
  The output cell as the specification defines it: over the taps whose source value is
  not missing, \<open>weightedSum\<close> accumulates value times weight and \<open>weightTotal\<close> the
  weight; the cell is their quotient if \<open>weightTotal\<close> is not zero, and missing otherwise.
\<close>

definition spec_cell :: "'f float_ops \<Rightarrow> 'f stencil \<Rightarrow> 'f list list \<Rightarrow> nat \<Rightarrow> nat \<Rightarrow> 'f" where
  "spec_cell ops st z j i =
     (let reads = map (\<lambda>t. (lattice_at ops z (fst t) (fst (snd t)), snd (snd t))) (taps st j i);
          present = filter (\<lambda>vw. \<not> op_isnan ops (fst vw)) reads;
          weightedSum = foldl (\<lambda>a vw. op_add ops a (op_mul ops (fst vw) (snd vw))) (op_zero ops) present;
          weightTotal = foldl (\<lambda>s vw. op_add ops s (snd vw)) (op_zero ops) present
      in if op_nonzero ops weightTotal then op_div ops weightedSum weightTotal else op_nan ops)"

text \<open>
  A lattice in a world: its z channel is an allocated array of shape \<open>(nj, ni)\<close>.
\<close>

definition rect :: "nat \<Rightarrow> nat \<Rightarrow> 'a list list \<Rightarrow> bool" where
  "rect rows cols a \<longleftrightarrow> length a = rows \<and> list_all (\<lambda>r. length r = cols) a"

definition mesh_ok :: "'f tri_mesh \<Rightarrow> 'f world \<Rightarrow> bool" where
  "mesh_ok tm w \<longleftrightarrow>
     mesh_z_array tm < next_free w \<and> rect (mesh_nj tm) (mesh_ni tm) (heap w (mesh_z_array tm))"

text \<open>The border of the padded lattice: \<open>n\<close> rounded up to the next even integer.\<close>

definition border_width :: "nat \<Rightarrow> nat" where
  "border_width n = (if even n then n else n + 1)"

text \<open>The padded lattice: \<open>z\<close> inside a border of \<open>b\<close> cells holding \<open>fill\<close>.\<close>

definition padded :: "nat \<Rightarrow> nat \<Rightarrow> nat \<Rightarrow> 'f \<Rightarrow> 'f list list \<Rightarrow> 'f list list" where
  "padded b nj ni fill z =
     map (\<lambda>r. map (\<lambda>c. if b \<le> r \<and> r < b + nj \<and> b \<le> c \<and> c < b + ni
                        then z ! (r - b) ! (c - b) else fill) [0..<ni + 2 * b])
       [0..<nj + 2 * b]"

text \<open>One tap applied to the accumulators, reading the lattice with missing surroundings.\<close>

definition tapstep :: "'f float_ops \<Rightarrow> 'f list list \<Rightarrow> int \<times> int \<times> 'f \<Rightarrow> 'f \<times> 'f \<Rightarrow> 'f \<times> 'f" where
  "tapstep ops z t acc = accumulate ops (lattice_at ops z (fst t) (fst (snd t))) (snd (snd t)) acc"

text \<open>
  An array of the padded shape holding \<open>f j i\<close> at the position of lattice cell
  \<open>(j, i)\<close> and \<open>NaN\<close> in the border.
\<close>

definition grid :: "'f float_ops \<Rightarrow> nat \<Rightarrow> nat \<Rightarrow> nat \<Rightarrow> (nat \<Rightarrow> nat \<Rightarrow> 'f) \<Rightarrow> 'f list list" where
  "grid ops b nj ni f =
     map (\<lambda>r. map (\<lambda>c. if b \<le> r \<and> r < b + nj \<and> b \<le> c \<and> c < b + ni
                        then f (r - b) (c - b) else op_nan ops) [0..<ni + 2 * b])
       [0..<nj + 2 * b]"

text \<open>
  The output cells computed when the loops of the kernel reach cell \<open>(j, k)\<close>: the
  rows before \<open>j\<close> and the cells of row \<open>j\<close> before column \<open>k\<close>.
\<close>

definition done_upto :: "'f float_ops \<Rightarrow> 'f stencil \<Rightarrow> 'f list list \<Rightarrow> nat \<Rightarrow> nat \<Rightarrow> nat \<Rightarrow> nat \<Rightarrow> 'f" where
  "done_upto ops st z j k j' i' = (if j' < j \<or> (j' = j \<and> i' < k) then spec_cell ops st z j' i' else op_nan ops)"

text \<open>
  The shape of a stencil as the loops of the kernel rely on it: the three arrays have
  \<open>n\<close> rows, row \<open>jp\<close> starts at column offset \<open>-(n - 1) + floor(jp / 2)\<close> and has
  \<open>2n - 1 - jp\<close> valid slots, which fit in the row of the buffer.  Nothing is said about
  the weights, nor about the slots of the buffer beyond the valid ones.
\<close>

definition stencil_shape :: "'f stencil \<Rightarrow> bool" where
  "stencil_shape st \<longleftrightarrow>
     length (self_start_ip st) = self_n st
     \<and> length (self_row_length st) = self_n st
     \<and> length (self_half_hex st) = self_n st
     \<and> (\<forall>jp < self_n st.
           self_start_ip st ! jp = - (int (self_n st) - 1) + int (jp div 2)
           \<and> self_row_length st ! jp = 2 * int (self_n st) - 1 - int jp
           \<and> nat (self_row_length st ! jp) \<le> length (self_half_hex st ! jp))"

section \<open>The loops of the constructor\<close>

lemma exact_ops_simps [simp]:
  "op_zero exact_ops = Fin 0" "op_nan exact_ops = NaN" "op_isnan exact_ops = isnan"
  "op_add exact_ops = fadd" "op_mul exact_ops = fmul" "op_div exact_ops = fdiv"
  "op_nonzero exact_ops = (\<lambda>x. x \<noteq> Fin 0)"
  "op_isclose_zero exact_ops = (\<lambda>x. isclose x (Fin 0))"
  "op_sum exact_ops = np_sum" "op_float exact_ops = (\<lambda>k. Fin (real k))"
  by (simp_all add: exact_ops_def)

lemma for_loop_append:
  "for_loop (xs @ ys) body s = ebind (for_loop xs body s) (for_loop ys body)"
proof (induction xs arbitrary: s)
  case Nil
  then show ?case by simp
next
  case (Cons x xs)
  then show ?case by (cases "body x s") simp_all
qed

lemma ebind_Inr_iff:
  "ebind m f = Inr y \<longleftrightarrow> (\<exists>x. m = Inr x \<and> f x = Inr y)"
  by (cases m) auto

lemma isclose_zero: "isclose x (Fin 0) \<longleftrightarrow> x = Fin 0"
proof (cases x)
  case NaN
  then show ?thesis by simp
next
  case (Fin a)
  have "\<bar>a\<bar> \<le> rel_tol * \<bar>a\<bar> \<Longrightarrow> a = 0"
  proof -
    assume h: "\<bar>a\<bar> \<le> rel_tol * \<bar>a\<bar>"
    have "rel_tol * \<bar>a\<bar> \<le> \<bar>a\<bar> / 2" by (simp add: rel_tol_def)
    with h have "\<bar>a\<bar> \<le> \<bar>a\<bar> / 2" by linarith
    then show "a = 0" by simp
  qed
  moreover have "0 \<le> rel_tol * \<bar>a\<bar>" by (simp add: rel_tol_def)
  ultimately show ?thesis using Fin by (auto simp: max_def)
qed

lemma no_nan_Fin: "\<not> list_ex isnan p \<Longrightarrow> \<exists>ps. p = map Fin ps"
proof (induction p)
  case Nil
  then show ?case by simp
next
  case (Cons a p)
  then obtain ps where "p = map Fin ps" by auto
  moreover from Cons.prems obtain x where "a = Fin x" by (cases a) auto
  ultimately have "a # p = map Fin (x # ps)" by simp
  then show ?case by (rule exI)
qed

lemma foldl_fadd_Fin: "foldl fadd (Fin a) (map Fin ps) = Fin (a + sum_list ps)"
  by (induction ps arbitrary: a) (auto simp: algebra_simps)

lemma np_sum_Fin: "np_sum (map Fin ps) = Fin (sum_list ps)"
  by (simp add: np_sum_def foldl_fadd_Fin)

lemma length_ring_divide [simp]: "length (ring_divide ops i p) = length p"
  by (simp add: ring_divide_def)

lemma length_fold_ring_divide [simp]: "length (fold (ring_divide ops) is p) = length p"
  by (induction "is" arbitrary: p) auto

lemma ring_divide_nth:
  "i < length p \<Longrightarrow> ring_divide ops i p ! k = (if k = i then op_div ops (p ! i) (op_float ops (6 * i)) else p ! k)"
  by (simp add: ring_divide_def)

lemma fold_ring_divide_nth:
  "b \<le> length q \<Longrightarrow> k < length q \<Longrightarrow>
   fold (ring_divide ops) [a..<b] q ! k =
     (if a \<le> k \<and> k < b then op_div ops (q ! k) (op_float ops (6 * k)) else q ! k)"
proof (induction b arbitrary: k)
  case 0
  then show ?case by simp
next
  case (Suc b)
  show ?case
  proof (cases "a \<le> b")
    case True
    then have e: "[a..<Suc b] = [a..<b] @ [b]" by simp
    have b: "b < length (fold (ring_divide ops) [a..<b] q)" using Suc.prems by simp
    have ihb: "fold (ring_divide ops) [a..<b] q ! b = q ! b"
      using Suc.IH [of b] Suc.prems by simp
    have ihk: "fold (ring_divide ops) [a..<b] q ! k = (if a \<le> k \<and> k < b then op_div ops (q ! k) (op_float ops (6 * k)) else q ! k)"
      using Suc.IH [of k] Suc.prems by simp
    show ?thesis
      unfolding e fold_append comp_apply fold_simps ring_divide_nth [OF b] ihb ihk
      using True by auto
  next
    case False
    then show ?thesis by auto
  qed
qed

lemma length_row_values: "jp < length p \<Longrightarrow> length (row_values p jp) = 2 * length p - 1 - jp"
  by (auto simp: row_values_def)

lemma get1_nat: "k < length xs \<Longrightarrow> get1 xs (int k) = Inr (xs ! k)"
  by (simp add: get1_def np_index_def)

lemma slice_set_tail:
  "0 < k \<Longrightarrow> k \<le> length a \<Longrightarrow> length vs = k \<Longrightarrow>
   slice_set a (Some (- int k)) None vs = Inr (take (length a - k) a @ vs)"
  by (simp add: slice_set_def slice_bound_def Let_def nat_diff_distrib')

lemma slice_set_head:
  "k \<le> length a \<Longrightarrow> length vs = k \<Longrightarrow>
   slice_set a None (Some (int k)) vs = Inr (vs @ drop k a)"
  by (simp add: slice_set_def slice_bound_def Let_def)

lemma half_hex_row_step:
  assumes "1 \<le> jp" "jp < length p"
  shows "half_hex_row p jp (2 * int (length p) - int jp, hs)
         = Inr (2 * int (length p) - 1 - int jp, hs @ [row_spec p jp])"
proof -
  let ?n = "length p"
  let ?sub = "drop (jp + 1) p"
  let ?x = "p ! jp"
  have rl: "2 * int ?n - int jp - 1 = int (?n + (?n - 1 - jp))" using assms by linarith
  have full: "np_full1 (2 * int ?n - int jp - 1) ?x = Inr (replicate (?n + (?n - 1 - jp)) ?x)"
    unfolding rl np_full1_def by simp
  have g: "get1 p (int jp) = Inr ?x" using assms by (simp add: get1_nat)
  have lsub: "length ?sub = ?n - 1 - jp" by simp
  show ?thesis
  proof (cases "jp < ?n - 1")
    case True
    then have c: "int jp < int ?n - 1" by linarith
    have s1: "slice_set (replicate (?n + (?n - 1 - jp)) ?x) (Some (- int (length ?sub))) None ?sub
          = Inr (replicate ?n ?x @ ?sub)"
      using True by (subst slice_set_tail) simp_all
    have d: "drop (?n - 1 - jp) (replicate ?n ?x) = replicate (jp + 1) ?x"
      using True assms by simp
    have s2: "slice_set (replicate ?n ?x @ ?sub) None (Some (int (length ?sub))) (rev ?sub)
          = Inr (rev ?sub @ replicate (jp + 1) ?x @ ?sub)"
      using True d by (subst slice_set_head) simp_all
    show ?thesis
      unfolding half_hex_row_def Let_def fst_conv snd_conv g full ebind.simps s1 s2 row_spec_def row_values_def
      using c by simp
  next
    case False
    then have c: "\<not> int jp < int ?n - 1" by linarith
    from False assms have e: "?n + (?n - 1 - jp) = jp + 1" "?sub = []" by simp_all
    show ?thesis
      unfolding half_hex_row_def Let_def fst_conv snd_conv g full ebind.simps row_spec_def row_values_def e
      using c by simp
  qed
qed

lemma row_spec_0: "p \<noteq> [] \<Longrightarrow> (- (int (length p) - 1), 2 * int (length p) - 1, rev (drop 1 p) @ p) = row_spec p 0"
  by (cases p) (simp_all add: row_spec_def row_values_def)

lemma build_loop:
  "k < length p \<Longrightarrow>
   for_loop [1..<Suc k] (half_hex_row p) (2 * int (length p) - 1, [row_spec p 0])
   = Inr (2 * int (length p) - 1 - int k, map (row_spec p) [0..<Suc k])"
proof (induction k)
  case 0
  then show ?case by simp
next
  case (Suc k)
  have e: "[1..<Suc (Suc k)] = [1..<Suc k] @ [Suc k]" by simp
  have st: "2 * int (length p) - 1 - int k = 2 * int (length p) - int (Suc k)" by simp
  have ih: "for_loop [1..<Suc k] (half_hex_row p) (2 * int (length p) - 1, [row_spec p 0])
     = Inr (2 * int (length p) - int (Suc k), map (row_spec p) [0..<Suc k])"
    using Suc by (simp del: upt_Suc)
  have step: "half_hex_row p (Suc k) (2 * int (length p) - int (Suc k), map (row_spec p) [0..<Suc k])
     = Inr (2 * int (length p) - 1 - int (Suc k), map (row_spec p) [0..<Suc k] @ [row_spec p (Suc k)])"
    using Suc.prems by (intro half_hex_row_step) simp_all
  show ?case
    unfolding e for_loop_append ih ebind.simps for_loop.simps step
    by simp
qed

lemma build_half_hex_eq:
  assumes "p \<noteq> []"
  shows "build_half_hex p = Inr (map (row_spec p) [0..<length p])"
proof -
  obtain k where k: "length p = Suc k" using assms by (cases p) auto
  have "for_loop [1..<length p] (half_hex_row p) (2 * int (length p) - 1, [row_spec p 0])
      = Inr (2 * int (length p) - 1 - int k, map (row_spec p) [0..<length p])"
    unfolding k using build_loop [of k p] k by simp
  then show ?thesis
    unfolding build_half_hex_def Let_def row_spec_0 [OF assms] by simp
qed

lemma fill_row_step:
  assumes "jp < length p"
  shows "fill_row (map (\<lambda>h. fst (snd h)) (map (row_spec p) [0..<length p]))
           (map (row_spec p) [0..<length p]) jp (buffer_upto ops p jp)
         = Inr (buffer_upto ops p (Suc jp))"
proof -
  let ?n = "length p"
  let ?hh = "map (row_spec p) [0..<?n]"
  have g1: "get1 (map (\<lambda>h. fst (snd h)) ?hh) (int jp) = Inr (2 * int ?n - 1 - int jp)"
    using assms by (simp add: get1_nat row_spec_def)
  have g2: "get1 ?hh (int jp) = Inr (row_spec p jp)"
    using assms by (simp add: get1_nat)
  have g3: "np_index (length (buffer_upto ops p jp)) (int jp) = Inr jp"
    using assms by (simp add: np_index_def buffer_upto_def)
  have row: "buffer_upto ops p jp ! jp = replicate (2 * ?n - 1) (op_nan ops)"
    using assms by (simp add: buffer_upto_def)
  have rl: "2 * int ?n - 1 - int jp = int (2 * ?n - 1 - jp)" using assms by linarith
  have s: "slice_set (replicate (2 * ?n - 1) (op_nan ops)) None (Some (2 * int ?n - 1 - int jp)) (row_values p jp)
         = Inr (buffer_row ops p jp)"
    unfolding rl using assms
    by (subst slice_set_head) (simp_all add: length_row_values buffer_row_def)
  have u: "(buffer_upto ops p jp)[jp := buffer_row ops p jp] = buffer_upto ops p (Suc jp)"
  proof (rule nth_equalityI)
    show "length ((buffer_upto ops p jp)[jp := buffer_row ops p jp]) = length (buffer_upto ops p (Suc jp))"
      by (simp add: buffer_upto_def)
  next
    fix i assume "i < length ((buffer_upto ops p jp)[jp := buffer_row ops p jp])"
    then have i: "i < length p" by (simp add: buffer_upto_def)
    then show "(buffer_upto ops p jp)[jp := buffer_row ops p jp] ! i = buffer_upto ops p (Suc jp) ! i"
      using assms by (cases "i = jp") (simp_all add: buffer_upto_def)
  qed
  show ?thesis
    by (simp only: fill_row_def g1 g2 g3 ebind.simps row row_spec_def snd_conv s u)
qed

lemma fill_loop:
  "k \<le> length p \<Longrightarrow>
   for_loop [0..<k] (fill_row (map (\<lambda>h. fst (snd h)) (map (row_spec p) [0..<length p]))
           (map (row_spec p) [0..<length p])) (buffer_upto ops p 0)
   = Inr (buffer_upto ops p k)"
proof (induction k)
  case 0
  then show ?case by simp
next
  case (Suc k)
  have e: "[0..<Suc k] = [0..<k] @ [k]" by simp
  show ?case
    unfolding e for_loop_append
    using Suc fill_row_step [of k p] by simp
qed

lemma to_arrays_eq:
  "to_arrays ops p (map (row_spec p) [0..<length p]) = Inr (built ops p)"
proof -
  have z: "np_full2 (length p) (2 * length p - 1) (op_nan ops) = buffer_upto ops p 0"
    by (simp add: np_full2_def buffer_upto_def map_replicate_const)
  have f: "buffer_upto ops p (length p) = map (buffer_row ops p) [0..<length p]"
    by (simp add: buffer_upto_def)
  show ?thesis
    unfolding to_arrays_def Let_def z
    using fill_loop [of "length p" p]
    by (simp add: f built_def row_spec_def comp_def)
qed

lemma build_to_arrays:
  "p \<noteq> [] \<Longrightarrow> ebind (build_half_hex p) (to_arrays ops p) = Inr (built ops p)"
  by (simp add: build_half_hex_eq to_arrays_eq)

section \<open>Properties of FrontierFeature.is_equivalent\<close>

text \<open>
  Claim C10.  For every frontier feature \<open>f\<close> and every value \<open>other\<close>,
  \<open>f.is_equivalent(other, check_extra_metadata)\<close> is False when \<open>other\<close> is None or is
  not a frontier feature; it is True when \<open>other\<close> is \<open>f\<close> itself or the UUIDs match,
  whatever the names and the extra metadata are (so \<open>f.is_equivalent(f)\<close> is True); and
  otherwise it is True exactly when the feature names are equal and, if
  \<open>check_extra_metadata\<close> is set, the extra metadata is equivalent.
\<close>

theorem is_equivalent_cases:
  "is_equivalent mu eem f PyNone chk = False
   \<and> is_equivalent mu eem f (PyOther x) chk = False
   \<and> is_equivalent mu eem f (PyFrontierFeature f) chk = True
   \<and> (ff_id f = ff_id g \<or> mu (ff_uuid f) (ff_uuid g)
        \<longrightarrow> is_equivalent mu eem f (PyFrontierFeature g) chk = True)
   \<and> (ff_id f \<noteq> ff_id g \<and> \<not> mu (ff_uuid f) (ff_uuid g)
        \<longrightarrow> is_equivalent mu eem f (PyFrontierFeature g) chk
            = (feature_name f = feature_name g \<and> (chk \<longrightarrow> eem f g)))"
  by (auto simp: is_equivalent_def)

theorem is_equivalent_cases_witness:
  "is_equivalent (=) (\<lambda>a b. ff_extra_metadata a = ff_extra_metadata b)
     \<lparr> ff_id = 1, ff_uuid = ''u1'', ff_title = Some ''north'', ff_extra_metadata = [] \<rparr>
     (PyFrontierFeature
        \<lparr> ff_id = 2, ff_uuid = ''u2'', ff_title = Some ''north'', ff_extra_metadata = [(''k'', ''v'')] \<rparr>)
     False = True
   \<and> is_equivalent (=) (\<lambda>a b. ff_extra_metadata a = ff_extra_metadata b)
     \<lparr> ff_id = 1, ff_uuid = ''u1'', ff_title = Some ''north'', ff_extra_metadata = [] \<rparr>
     (PyFrontierFeature
        \<lparr> ff_id = 2, ff_uuid = ''u2'', ff_title = Some ''north'', ff_extra_metadata = [(''k'', ''v'')] \<rparr>)
     True = False
   \<and> is_equivalent (=) (\<lambda>a b. ff_extra_metadata a = ff_extra_metadata b)
     \<lparr> ff_id = 1, ff_uuid = ''u1'', ff_title = Some ''north'', ff_extra_metadata = [] \<rparr>
     (PyFrontierFeature
        \<lparr> ff_id = 3, ff_uuid = ''u1'', ff_title = Some ''south'', ff_extra_metadata = [(''k'', ''v'')] \<rparr>)
     True = True"
  using is_equivalent_cases [of "(=)" "\<lambda>a b. ff_extra_metadata a = ff_extra_metadata b"
      "\<lparr> ff_id = 1, ff_uuid = ''u1'', ff_title = Some ''north'', ff_extra_metadata = [] \<rparr>" False _
      "\<lparr> ff_id = 2, ff_uuid = ''u2'', ff_title = Some ''north'', ff_extra_metadata = [(''k'', ''v'')] \<rparr>"]
    is_equivalent_cases [of "(=)" "\<lambda>a b. ff_extra_metadata a = ff_extra_metadata b"
      "\<lparr> ff_id = 1, ff_uuid = ''u1'', ff_title = Some ''north'', ff_extra_metadata = [] \<rparr>" True _
      "\<lparr> ff_id = 2, ff_uuid = ''u2'', ff_title = Some ''north'', ff_extra_metadata = [(''k'', ''v'')] \<rparr>"]
    is_equivalent_cases [of "(=)" "\<lambda>a b. ff_extra_metadata a = ff_extra_metadata b"
      "\<lparr> ff_id = 1, ff_uuid = ''u1'', ff_title = Some ''north'', ff_extra_metadata = [] \<rparr>" True _
      "\<lparr> ff_id = 3, ff_uuid = ''u1'', ff_title = Some ''south'', ff_extra_metadata = [(''k'', ''v'')] \<rparr>"]
  by simp

section \<open>Properties of the constructor\<close>

lemma normalise_pattern_length:
  "normalise_pattern ops p normalise = Inr p' \<Longrightarrow> length p' = length p"
  by (auto simp: normalise_pattern_def Let_def split: option.splits if_splits)

lemma normalise_pattern_Inl_iff:
  "isl (normalise_pattern ops p normalise)
   \<longleftrightarrow> (\<exists>nv. normalise = Some nv
         \<and> (op_isclose_zero ops nv \<or> op_isclose_zero ops (op_sum ops p)))"
  by (auto simp: normalise_pattern_def Let_def split: option.splits)

lemma normalise_pattern_error:
  "normalise_pattern ops p normalise = Inl e \<Longrightarrow> \<exists>m. e = AssertionError m"
  by (auto simp: normalise_pattern_def Let_def split: option.splits if_splits)

lemma init_valid:
  assumes "ndim a = 1" "1 < length (entries a)" "\<not> list_ex (op_isnan ops) (entries a)"
  shows "TriMeshStencil_init ops a normalise =
         (case normalise_pattern ops (entries a) normalise of Inl e \<Rightarrow> Inl e | Inr p' \<Rightarrow> Inr (built ops p'),
          size_warning (length (entries a)))"
proof (cases "normalise_pattern ops (entries a) normalise")
  case (Inl e)
  then show ?thesis using assms by (simp add: TriMeshStencil_init_def)
next
  case (Inr p')
  then have "length p' = length (entries a)" by (rule normalise_pattern_length)
  then have "p' \<noteq> []" using assms by auto
  then have "ebind (build_half_hex p') (to_arrays ops p') = Inr (built ops p')" by (rule build_to_arrays)
  then show ?thesis using assms Inr by (simp add: TriMeshStencil_init_def)
qed

lemma init_Inr:
  assumes "TriMeshStencil_init ops a normalise = (Inr st, lg)"
  shows "\<exists>p'. st = built ops p' \<and> normalise_pattern ops (entries a) normalise = Inr p'
          \<and> length p' = length (entries a) \<and> 1 < length p' \<and> ndim a = 1
          \<and> \<not> list_ex (op_isnan ops) (entries a)"
proof -
  from assms have v: "ndim a = 1" "1 < length (entries a)" "\<not> list_ex (op_isnan ops) (entries a)"
    by (auto simp: TriMeshStencil_init_def Let_def split: if_splits)
  from assms init_valid [OF v, of normalise] obtain p' where
    p: "normalise_pattern ops (entries a) normalise = Inr p'" "st = built ops p'"
    by (auto split: sum.splits)
  with v normalise_pattern_length [OF p(1)] show ?thesis by auto
qed

text \<open>
  Claim C7.  Construction fails (with an assertion error, the validation error of the
  spec) exactly when the pattern is not one-dimensional, has fewer than two entries,
  contains a \<open>NaN\<close> entry, or a normalise target is given and the target is zero or
  the raw sum of the pattern, as \<open>np.sum\<close> computes it, is zero.  The size warning is
  logged exactly for a one-dimensional pattern without \<open>NaN\<close> of more than 50 entries;
  so a valid pattern of length 51 succeeds with the warning, and a pattern of length 1
  fails.  The arithmetic is any in which \<open>math.isclose(x, 0.0)\<close> holds exactly of the
  values that compare equal to zero (with the default relative tolerance and no absolute
  tolerance nothing else is close to zero).
\<close>

theorem init_fails_iff:
  assumes "\<forall>x. op_isclose_zero ops x \<longleftrightarrow> \<not> op_nonzero ops x"
  shows "(isl (fst (TriMeshStencil_init ops a normalise))
      \<longleftrightarrow> ndim a \<noteq> 1 \<or> length (entries a) < 2 \<or> list_ex (op_isnan ops) (entries a)
          \<or> (\<exists>nv. normalise = Some nv
                \<and> (\<not> op_nonzero ops nv \<or> \<not> op_nonzero ops (op_sum ops (entries a)))))
   \<and> (\<forall>e. fst (TriMeshStencil_init ops a normalise) = Inl e \<longrightarrow> (\<exists>m. e = AssertionError m))
   \<and> snd (TriMeshStencil_init ops a normalise) =
       (if ndim a = 1 \<and> 50 < length (entries a) \<and> \<not> list_ex (op_isnan ops) (entries a)
        then [(WARNING, ''very large stencil pattern length: '' @ str_nat (length (entries a)))]
        else [])"
proof (cases "ndim a = 1 \<and> 1 < length (entries a) \<and> \<not> list_ex (op_isnan ops) (entries a)")
  case True
  then have v: "ndim a = 1" "1 < length (entries a)" "\<not> list_ex (op_isnan ops) (entries a)" by auto
  have 1: "isl (fst (TriMeshStencil_init ops a normalise)) = isl (normalise_pattern ops (entries a) normalise)"
    unfolding init_valid [OF v] by (simp split: sum.splits)
  have 2: "\<forall>e. fst (TriMeshStencil_init ops a normalise) = Inl e \<longrightarrow> (\<exists>m. e = AssertionError m)"
    unfolding init_valid [OF v] by (auto split: sum.splits dest: normalise_pattern_error)
  have 3: "snd (TriMeshStencil_init ops a normalise) = size_warning (length (entries a))"
    unfolding init_valid [OF v] by simp
  show ?thesis
    unfolding 1 3 normalise_pattern_Inl_iff using v 2 assms by (auto simp: size_warning_def)
next
  case False
  then show ?thesis by (auto simp: TriMeshStencil_init_def Let_def)
qed

theorem init_fails_iff_witness:
  "(\<forall>x. op_isclose_zero exact_ops x \<longleftrightarrow> \<not> op_nonzero exact_ops x)
   \<and> \<not> isl (fst (TriMeshStencil_init exact_ops \<lparr> ndim = 1, entries = replicate 51 (Fin 1) \<rparr> None))
   \<and> snd (TriMeshStencil_init exact_ops \<lparr> ndim = 1, entries = replicate 51 (Fin 1) \<rparr> None)
       = [(WARNING, ''very large stencil pattern length: 51'')]
   \<and> isl (fst (TriMeshStencil_init exact_ops \<lparr> ndim = 1, entries = [Fin 1] \<rparr> None))
   \<and> isl (fst (TriMeshStencil_init exact_ops \<lparr> ndim = 1, entries = [Fin 1, Fin (- 1)] \<rparr> (Some (Fin 2))))
   \<and> isl (fst (TriMeshStencil_init exact_ops \<lparr> ndim = 1, entries = [Fin 1, NaN] \<rparr> None))
   \<and> isl (fst (TriMeshStencil_init exact_ops \<lparr> ndim = 2, entries = [Fin 1, Fin 2] \<rparr> None))"
proof -
  have h: "\<forall>x. op_isclose_zero exact_ops x \<longleftrightarrow> \<not> op_nonzero exact_ops x"
    by (simp add: isclose_zero)
  have s: "str_nat 51 = ''51''" by code_simp
  have z: "np_sum [Fin 1, Fin (- 1)] = Fin 0" by (simp add: np_sum_def)
  show ?thesis
    using init_fails_iff [OF h, where a = "\<lparr> ndim = 1, entries = replicate 51 (Fin 1) \<rparr>" and normalise = None]
      init_fails_iff [OF h, where a = "\<lparr> ndim = 1, entries = [Fin 1] \<rparr>" and normalise = None]
      init_fails_iff [OF h, where a = "\<lparr> ndim = 1, entries = [Fin 1, Fin (- 1)] \<rparr>" and normalise = "Some (Fin 2)"]
      init_fails_iff [OF h, where a = "\<lparr> ndim = 1, entries = [Fin 1, NaN] \<rparr>" and normalise = None]
      init_fails_iff [OF h, where a = "\<lparr> ndim = 2, entries = [Fin 1, Fin 2] \<rparr>" and normalise = None]
      h
    by (simp add: s z list_ex_iff)
qed

lemma built_simps:
  "self_n (built ops p) = length p"
  "self_pattern (built ops p) = p"
  "length (self_row_length (built ops p)) = length p"
  "length (self_start_ip (built ops p)) = length p"
  "length (self_half_hex (built ops p)) = length p"
  "jp < length p \<Longrightarrow> self_row_length (built ops p) ! jp = 2 * int (length p) - 1 - int jp"
  "jp < length p \<Longrightarrow> self_start_ip (built ops p) ! jp = - (int (length p) - 1) + int (jp div 2)"
  "jp < length p \<Longrightarrow> self_half_hex (built ops p) ! jp = buffer_row ops p jp"
  by (simp_all add: built_def)

text \<open>
  Claim C3.  For a pattern of length \<open>n \<ge> 2\<close> the built stencil has
  \<open>row_length[0] = 2n - 1\<close>, \<open>row_length[jp] = row_length[jp - 1] - 1\<close> for every
  \<open>jp\<close> in \<open>[1, n - 1]\<close> (down to \<open>n\<close> at \<open>jp = n - 1\<close>), \<open>start_ip[0] = -(n - 1)\<close>
  and \<open>start_ip[jp] = -(n - 1) + floor(jp / 2)\<close> for every \<open>jp\<close> in \<open>[1, n - 1]\<close>.
\<close>

theorem stencil_rows:
  assumes "TriMeshStencil_init ops a normalise = (Inr st, lg)"
  shows "self_n st = length (entries a) \<and> 2 \<le> self_n st
    \<and> length (self_row_length st) = self_n st \<and> length (self_start_ip st) = self_n st
    \<and> self_row_length st ! 0 = 2 * int (self_n st) - 1
    \<and> (\<forall>jp. 1 \<le> jp \<and> jp < self_n st \<longrightarrow>
          self_row_length st ! jp = self_row_length st ! (jp - 1) - 1)
    \<and> self_row_length st ! (self_n st - 1) = int (self_n st)
    \<and> self_start_ip st ! 0 = - (int (self_n st) - 1)
    \<and> (\<forall>jp. 1 \<le> jp \<and> jp < self_n st \<longrightarrow>
          self_start_ip st ! jp = - (int (self_n st) - 1) + int (jp div 2))"
proof -
  from init_Inr [OF assms] obtain p' where
    p: "st = built ops p'" "length p' = length (entries a)" "1 < length p'" by blast
  have z: "0 < length p'" "length p' - 1 < length p'" using p(3) by auto
  have r0: "self_row_length (built ops p') ! 0 = 2 * int (length p') - 1"
    using built_simps(6) [OF z(1)] by simp
  have s0: "self_start_ip (built ops p') ! 0 = - (int (length p') - 1)"
    using built_simps(7) [OF z(1)] by simp
  have "2 * int (length p') - 1 - int (length p' - 1) = int (length p')"
    using p(3) by linarith
  then have rl: "self_row_length (built ops p') ! (length p' - 1) = int (length p')"
    using built_simps(6) [OF z(2)] by simp
  have rj: "self_row_length (built ops p') ! jp = self_row_length (built ops p') ! (jp - 1) - 1"
    if "1 \<le> jp" "jp < length p'" for jp
  proof -
    have "jp - 1 < length p'" using that by simp
    then show ?thesis using that by (simp add: built_simps(6))
  qed
  show ?thesis
    unfolding p(1) built_simps(1-4) using p(2,3) r0 s0 rl rj
    by (simp add: built_simps(7))
qed

theorem stencil_rows_witness:
  "TriMeshStencil_init exact_ops \<lparr> ndim = 1, entries = [Fin 1, Fin 2, Fin 3] \<rparr> None
     = (Inr \<lparr> self_n = 3, self_pattern = [Fin 1, Fin 2, Fin 3],
               self_start_ip = [- 2, - 2, - 1], self_row_length = [5, 4, 3],
               self_half_hex = [[Fin 3, Fin 2, Fin 1, Fin 2, Fin 3],
                                [Fin 3, Fin 2, Fin 2, Fin 3, NaN],
                                [Fin 3, Fin 3, Fin 3, NaN, NaN]] \<rparr>, [])
   \<and> [5, 4, 3] ! 0 = 2 * int 3 - 1
   \<and> [5, 4, 3] ! 2 = [5, 4, 3] ! (2 - 1) - (1::int)
   \<and> [- 2, - 2, - 1] ! 2 = - (int 3 - 1) + int (2 div 2)"
proof -
  have h: "TriMeshStencil_init exact_ops \<lparr> ndim = 1, entries = [Fin 1, Fin 2, Fin 3] \<rparr> None
     = (Inr \<lparr> self_n = 3, self_pattern = [Fin 1, Fin 2, Fin 3],
               self_start_ip = [- 2, - 2, - 1], self_row_length = [5, 4, 3],
               self_half_hex = [[Fin 3, Fin 2, Fin 1, Fin 2, Fin 3],
                                [Fin 3, Fin 2, Fin 2, Fin 3, NaN],
                                [Fin 3, Fin 3, Fin 3, NaN, NaN]] \<rparr>, [])"
    by code_simp
  show ?thesis using stencil_rows [OF h] h by simp
qed

section \<open>Normalisation\<close>

lemma normalise_pattern_Fin:
  assumes "sum_list ps \<noteq> 0" "S \<noteq> 0"
  shows "normalise_pattern exact_ops (map Fin ps) (Some (Fin S)) = Inr (map Fin (normalised ps S))"
proof -
  let ?c = "S / sum_list ps"
  let ?p1 = "map (\<lambda>x. fmul x (fdiv (Fin S) (Fin (sum_list ps)))) (map Fin ps)"
  have p1: "?p1 = map (\<lambda>x. Fin (x * ?c)) ps" using assms by simp
  have "fold (ring_divide exact_ops) [1..<length ps] ?p1 = map Fin (normalised ps S)"
  proof (rule nth_equalityI)
    show "length (fold (ring_divide exact_ops) [1..<length ps] ?p1) = length (map Fin (normalised ps S))"
      by (simp add: normalised_def)
  next
    fix k assume "k < length (fold (ring_divide exact_ops) [1..<length ps] ?p1)"
    then have k: "k < length ps" by simp
    then have "fold (ring_divide exact_ops) [1..<length ps] ?p1 ! k
        = (if 1 \<le> k \<and> k < length ps then fdiv (?p1 ! k) (Fin (real (6 * k))) else ?p1 ! k)"
      using fold_ring_divide_nth [where ops = exact_ops and a = 1 and b = "length ps"
          and q = ?p1 and k = k]
      by simp
    also have "\<dots> = map Fin (normalised ps S) ! k"
      unfolding p1 using k by (auto simp: normalised_def)
    finally show "fold (ring_divide exact_ops) [1..<length ps] ?p1 ! k = map Fin (normalised ps S) ! k" .
  qed
  then show ?thesis
    using assms by (simp add: normalise_pattern_def isclose_zero np_sum_Fin Let_def)
qed

lemma hexagon_total_normalised:
  assumes "sum_list ps \<noteq> 0" "ps \<noteq> []"
  shows "hexagon_total (normalised ps S) = S"
proof -
  let ?n = "length ps"
  let ?c = "S / sum_list ps"
  have n: "0 < ?n" using assms by simp
  have "(\<Sum>k = 1..<?n. normalised ps S ! k * (6 * real k)) = (\<Sum>k = 1..<?n. ps ! k * ?c)"
    by (rule sum.cong) (auto simp: normalised_def)
  moreover have "normalised ps S ! 0 = ps ! 0 * ?c" using n by (simp add: normalised_def)
  ultimately have "hexagon_total (normalised ps S) = ps ! 0 * ?c + (\<Sum>k = 1..<?n. ps ! k * ?c)"
    by (simp add: hexagon_total_def normalised_def)
  also have "\<dots> = (\<Sum>k = 0..<?n. ps ! k * ?c)"
    using n by (simp add: sum.atLeast_Suc_lessThan)
  also have "\<dots> = (\<Sum>k = 0..<?n. ps ! k) * ?c"
    by (rule sum_distrib_right [symmetric])
  also have "(\<Sum>k = 0..<?n. ps ! k) = sum_list ps"
    by (simp add: sum_list_sum_nth)
  finally show ?thesis using assms by simp
qed

text \<open>
  Claim C2.  For a pattern of \<open>n \<ge> 2\<close> finite weights with a nonzero sum and a nonzero
  target \<open>S\<close>, building with \<open>normalise = S\<close> succeeds; the whole pattern is scaled by
  \<open>S / sum(pattern)\<close> and each ring weight \<open>k \<ge> 1\<close> is then divided by \<open>6k\<close>, so that
  the centre weight plus the sum over \<open>k\<close> from 1 to \<open>n - 1\<close> of ring weight \<open>k\<close> times
  \<open>6k\<close> is exactly \<open>S\<close>.
\<close>

theorem normalise_sum:
  assumes "ndim a = 1" "entries a = map Fin ps" "2 \<le> length ps"
    and "sum_list ps \<noteq> 0" "S \<noteq> 0"
  shows "\<exists>st lg qs. TriMeshStencil_init exact_ops a (Some (Fin S)) = (Inr st, lg)
      \<and> self_pattern st = map Fin qs \<and> length qs = length ps
      \<and> qs ! 0 = ps ! 0 * (S / sum_list ps)
      \<and> (\<forall>k. 1 \<le> k \<and> k < length ps \<longrightarrow> qs ! k = ps ! k * (S / sum_list ps) / (6 * real k))
      \<and> hexagon_total qs = S"
proof -
  have nn: "\<not> list_ex (op_isnan exact_ops) (entries a)"
    unfolding assms(2) by (simp add: list_ex_iff)
  have l: "1 < length (entries a)" using assms by simp
  have ne: "ps \<noteq> []" using assms by auto
  have i: "TriMeshStencil_init exact_ops a (Some (Fin S))
      = (Inr (built exact_ops (map Fin (normalised ps S))), size_warning (length (entries a)))"
    unfolding init_valid [OF assms(1) l nn] assms(2) normalise_pattern_Fin [OF assms(4,5)] by simp
  have q0: "normalised ps S ! 0 = ps ! 0 * (S / sum_list ps)"
    using ne by (simp add: normalised_def)
  have qk: "\<forall>k. 1 \<le> k \<and> k < length ps \<longrightarrow> normalised ps S ! k = ps ! k * (S / sum_list ps) / (6 * real k)"
    by (simp add: normalised_def)
  have ln: "length (normalised ps S) = length ps" by (simp add: normalised_def)
  have "TriMeshStencil_init exact_ops a (Some (Fin S))
        = (Inr (built exact_ops (map Fin (normalised ps S))), size_warning (length (entries a)))
      \<and> self_pattern (built exact_ops (map Fin (normalised ps S))) = map Fin (normalised ps S)
      \<and> length (normalised ps S) = length ps
      \<and> normalised ps S ! 0 = ps ! 0 * (S / sum_list ps)
      \<and> (\<forall>k. 1 \<le> k \<and> k < length ps \<longrightarrow>
            normalised ps S ! k = ps ! k * (S / sum_list ps) / (6 * real k))
      \<and> hexagon_total (normalised ps S) = S"
    using i q0 qk ln hexagon_total_normalised [OF assms(4) ne, of S]
    by (simp only: built_simps(2) simp_thms)
  then show ?thesis by blast
qed

theorem normalise_sum_witness:
  "fst (TriMeshStencil_init exact_ops \<lparr> ndim = 1, entries = [Fin 0, Fin 1] \<rparr> (Some (Fin 1)))
     = Inr \<lparr> self_n = 2, self_pattern = [Fin 0, Fin (1 / 6)],
              self_start_ip = [- 1, - 1], self_row_length = [3, 2],
              self_half_hex = [[Fin (1 / 6), Fin 0, Fin (1 / 6)], [Fin (1 / 6), Fin (1 / 6), NaN]] \<rparr>
   \<and> hexagon_total [0, 1 / 6] = 1"
proof -
  have h: "fst (TriMeshStencil_init exact_ops \<lparr> ndim = 1, entries = [Fin 0, Fin 1] \<rparr> (Some (Fin 1)))
     = Inr \<lparr> self_n = 2, self_pattern = [Fin 0, Fin (1 / 6)],
              self_start_ip = [- 1, - 1], self_row_length = [3, 2],
              self_half_hex = [[Fin (1 / 6), Fin 0, Fin (1 / 6)], [Fin (1 / 6), Fin (1 / 6), NaN]] \<rparr>"
    by code_simp
  from normalise_sum [of "\<lparr> ndim = 1, entries = [Fin 0, Fin 1] \<rparr>" "[0, 1]" 1]
  obtain st lg qs where
    r: "TriMeshStencil_init exact_ops \<lparr> ndim = 1, entries = [Fin 0, Fin 1] \<rparr> (Some (Fin 1)) = (Inr st, lg)"
      "self_pattern st = map Fin qs" "hexagon_total qs = 1"
    by auto
  from r(1) h have "st = \<lparr> self_n = 2, self_pattern = [Fin 0, Fin (1 / 6)],
              self_start_ip = [- 1, - 1], self_row_length = [3, 2],
              self_half_hex = [[Fin (1 / 6), Fin 0, Fin (1 / 6)], [Fin (1 / 6), Fin (1 / 6), NaN]] \<rparr>"
    by simp
  with r(2) have "map Fin qs = [Fin 0, Fin (1 / 6)]" by simp
  then have "qs = [0, 1 / 6]" by (auto simp: map_eq_Cons_conv)
  with r(3) h show ?thesis by simp
qed

section \<open>Radial symmetry of the built stencil\<close>

lemma rev_row_values: "rev (row_values p jp) = row_values p jp"
  by (simp add: row_values_def replicate_append_same)

lemma take_buffer_row:
  "jp < length p \<Longrightarrow> take (2 * length p - 1 - jp) (buffer_row ops p jp) = row_values p jp"
  by (simp add: buffer_row_def length_row_values)

lemma buffer_row_nth:
  "jp < length p \<Longrightarrow> ip < 2 * length p - 1 - jp \<Longrightarrow> buffer_row ops p jp ! ip = row_values p jp ! ip"
  by (simp add: buffer_row_def length_row_values nth_append)

lemma nth_append3:
  "i < length A \<Longrightarrow> (A @ B @ C) ! i = A ! i"
  "length A \<le> i \<Longrightarrow> i < length A + length B \<Longrightarrow> (A @ B @ C) ! i = B ! (i - length A)"
  "length A + length B \<le> i \<Longrightarrow> (A @ B @ C) ! i = C ! (i - length A - length B)"
  by (auto simp: nth_append)

lemma hex_distance_left:
  assumes "jp < n" "ip < n - 1 - jp"
  shows "hex_distance n jp ip = n - 1 - ip"
proof -
  let ?dx2 = "2 * (int ip - (int n - 1)) + int jp"
  have "ip + jp + 2 \<le> n" using assms by linarith
  then have h: "int ip + int jp + 2 \<le> int n" by linarith
  have neg: "?dx2 < 0" using h by simp
  have i: "int (n - 1 - ip) = int n - 1 - int ip" using h by linarith
  have "\<bar>?dx2\<bar> + int jp = 2 * int (n - 1 - ip)"
    unfolding i abs_of_neg [OF neg] by simp
  then have "nat ((\<bar>?dx2\<bar> + int jp) div 2) = n - 1 - ip" by simp
  then show ?thesis using assms by (simp add: hex_distance_def Let_def)
qed

lemma hex_distance_middle:
  assumes "jp < n" "n - 1 - jp \<le> ip" "ip < n"
  shows "hex_distance n jp ip = jp"
proof -
  let ?dx2 = "2 * (int ip - (int n - 1)) + int jp"
  have "n \<le> ip + jp + 1" "ip + 1 \<le> n" using assms by linarith+
  then have h: "int n \<le> int ip + int jp + 1" "int ip + 1 \<le> int n" by linarith+
  have "?dx2 \<le> int jp" "- int jp \<le> ?dx2" using h by simp_all
  then have "\<bar>?dx2\<bar> \<le> int jp" by (simp add: abs_le_iff)
  then have "(\<bar>?dx2\<bar> + int jp) div 2 \<le> int jp" by linarith
  then have "nat ((\<bar>?dx2\<bar> + int jp) div 2) \<le> jp" by linarith
  then show ?thesis by (simp add: hex_distance_def Let_def)
qed

lemma hex_distance_right:
  assumes "jp < n" "n \<le> ip"
  shows "hex_distance n jp ip = jp + 1 + ip - n"
proof -
  let ?dx2 = "2 * (int ip - (int n - 1)) + int jp"
  have h: "int n \<le> int ip" using assms by linarith
  have pos: "0 \<le> ?dx2" using h by simp
  have i: "int (jp + 1 + ip - n) = int jp + 1 + int ip - int n" using h by linarith
  have "\<bar>?dx2\<bar> + int jp = 2 * int (jp + 1 + ip - n)"
    unfolding i abs_of_nonneg [OF pos] by simp
  then have "nat ((\<bar>?dx2\<bar> + int jp) div 2) = jp + 1 + ip - n" by simp
  then show ?thesis using assms by (simp add: hex_distance_def Let_def)
qed

lemma row_values_nth:
  assumes "jp < length p" "ip < 2 * length p - 1 - jp"
  shows "row_values p jp ! ip = p ! hex_distance (length p) jp ip
         \<and> hex_distance (length p) jp ip < length p"
proof -
  let ?n = "length p"
  let ?sub = "drop (jp + 1) p"
  let ?A = "rev ?sub"
  let ?B = "replicate (jp + 1) (p ! jp)"
  have lA: "length ?A = ?n - 1 - jp" by simp
  have lB: "length ?B = jp + 1" by simp
  have rv: "row_values p jp = ?A @ ?B @ ?sub" by (simp only: row_values_def)
  consider (left) "ip < ?n - 1 - jp" | (middle) "?n - 1 - jp \<le> ip" "ip < ?n" | (right) "?n \<le> ip"
    by linarith
  then show ?thesis
  proof cases
    case left
    have "row_values p jp ! ip = ?A ! ip"
      unfolding rv using left lA by (intro nth_append3(1)) simp
    also have "\<dots> = ?sub ! (?n - 1 - jp - Suc ip)"
      using left by (simp add: rev_nth)
    also have "\<dots> = p ! (jp + 1 + (?n - 1 - jp - Suc ip))"
      using left assms by (intro nth_drop) simp
    also have "jp + 1 + (?n - 1 - jp - Suc ip) = ?n - 1 - ip" using left by linarith
    finally show ?thesis
      using hex_distance_left [OF assms(1) left] assms by simp
  next
    case middle
    have m: "length ?A \<le> ip" "ip < length ?A + length ?B"
      unfolding lA lB using middle assms by linarith+
    have "ip - length ?A < jp + 1" using m unfolding lB by linarith
    then have "?B ! (ip - length ?A) = p ! jp" by (rule nth_replicate)
    then have "row_values p jp ! ip = p ! jp"
      unfolding rv nth_append3(2) [OF m] .
    then show ?thesis
      using hex_distance_middle [OF assms(1) middle] assms by simp
  next
    case right
    have m: "length ?A + length ?B \<le> ip"
      unfolding lA lB using right assms by linarith
    have i: "ip - length ?A - length ?B = ip - ?n"
      unfolding lA lB using right assms by linarith
    have "row_values p jp ! ip = ?sub ! (ip - ?n)"
      unfolding rv nth_append3(3) [OF m] i ..
    also have "\<dots> = p ! (jp + 1 + (ip - ?n))"
      using right assms by (intro nth_drop) linarith
    also have "jp + 1 + (ip - ?n) = jp + 1 + ip - ?n" using right by linarith
    finally show ?thesis
      using hex_distance_right [OF assms(1) right] assms by simp
  qed
qed

lemma built_weight:
  assumes "jp < length p" "ip < 2 * length p - 1 - jp"
  shows "self_half_hex (built ops p) ! jp ! ip = p ! hex_distance (length p) jp ip"
  using assms row_values_nth [OF assms] by (simp add: built_simps(8) buffer_row_nth)

lemma built_row_length_nat:
  "jp < length p \<Longrightarrow> nat (self_row_length (built ops p) ! jp) = 2 * length p - 1 - jp"
  by (simp add: built_simps(6))

text \<open>
  Claim C4.  The weights of a built stencil are radially symmetric.  In every row \<open>jp\<close>
  of the half-hex buffer the first \<open>row_length[jp]\<close> entries read the same in both
  directions: they are the mirrored tail \<open>pattern[jp + 1:]\<close> (\<open>n - 1 - jp\<close> entries),
  then \<open>jp + 1\<close> interior entries equal to \<open>pattern[jp]\<close>, then the tail
  \<open>pattern[jp + 1:]\<close>.  Every valid entry is the pattern weight of the ring (the
  hex-graph distance from the centre) of its position, so two positions in the same
  ring carry the same weight.
\<close>

theorem stencil_radial_symmetry:
  assumes "TriMeshStencil_init ops a normalise = (Inr st, lg)" and "jp < self_n st"
  shows "length (self_pattern st) = self_n st
    \<and> rev (take (nat (self_row_length st ! jp)) (self_half_hex st ! jp))
        = take (nat (self_row_length st ! jp)) (self_half_hex st ! jp)
    \<and> take (nat (self_row_length st ! jp)) (self_half_hex st ! jp)
        = rev (drop (jp + 1) (self_pattern st))
          @ replicate (jp + 1) (self_pattern st ! jp)
          @ drop (jp + 1) (self_pattern st)
    \<and> length (drop (jp + 1) (self_pattern st)) = self_n st - 1 - jp
    \<and> (\<forall>ip. ip < nat (self_row_length st ! jp) \<longrightarrow>
          hex_distance (self_n st) jp ip < self_n st
          \<and> self_half_hex st ! jp ! ip = self_pattern st ! hex_distance (self_n st) jp ip)
    \<and> (\<forall>ip jp' ip'. ip < nat (self_row_length st ! jp) \<and> jp' < self_n st
          \<and> ip' < nat (self_row_length st ! jp')
          \<and> hex_distance (self_n st) jp ip = hex_distance (self_n st) jp' ip'
          \<longrightarrow> self_half_hex st ! jp ! ip = self_half_hex st ! jp' ! ip')"
proof -
  from init_Inr [OF assms(1)] obtain p where
    p: "st = built ops p" "1 < length p" by blast
  have jp: "jp < length p" using assms(2) unfolding p(1) by (simp add: built_simps(1))
  note rl = built_row_length_nat [OF jp]
  have tk: "take (nat (self_row_length (built ops p) ! jp)) (self_half_hex (built ops p) ! jp) = row_values p jp"
    unfolding rl built_simps(8) [OF jp] by (rule take_buffer_row [OF jp])
  have w: "self_half_hex (built ops p) ! j ! i = p ! hex_distance (length p) j i"
    if "j < length p" "i < nat (self_row_length (built ops p) ! j)" for j i
    using that built_weight [of j p i] by (simp add: built_row_length_nat)
  have d: "hex_distance (length p) jp ip < length p" if "ip < nat (self_row_length (built ops p) ! jp)" for ip
    using that row_values_nth [OF jp, of ip] by (simp add: rl)
  have 1: "length (self_pattern st) = self_n st" unfolding p(1) by (simp add: built_simps)
  have 2: "rev (take (nat (self_row_length st ! jp)) (self_half_hex st ! jp))
        = take (nat (self_row_length st ! jp)) (self_half_hex st ! jp)"
    unfolding p(1) tk by (rule rev_row_values)
  have 3: "take (nat (self_row_length st ! jp)) (self_half_hex st ! jp)
        = rev (drop (jp + 1) (self_pattern st))
          @ replicate (jp + 1) (self_pattern st ! jp)
          @ drop (jp + 1) (self_pattern st)"
    unfolding p(1) tk built_simps(2) by (simp only: row_values_def)
  have 4: "length (drop (jp + 1) (self_pattern st)) = self_n st - 1 - jp"
    unfolding p(1) by (simp add: built_simps)
  have 5: "\<forall>ip. ip < nat (self_row_length st ! jp) \<longrightarrow>
          hex_distance (self_n st) jp ip < self_n st
          \<and> self_half_hex st ! jp ! ip = self_pattern st ! hex_distance (self_n st) jp ip"
    unfolding p(1) built_simps(1,2) using w [OF jp] d by blast
  have 6: "\<forall>ip jp' ip'. ip < nat (self_row_length st ! jp) \<and> jp' < self_n st
          \<and> ip' < nat (self_row_length st ! jp')
          \<and> hex_distance (self_n st) jp ip = hex_distance (self_n st) jp' ip'
          \<longrightarrow> self_half_hex st ! jp ! ip = self_half_hex st ! jp' ! ip'"
    unfolding p(1) built_simps(1,2) using w jp by simp
  from 1 2 3 4 5 6 show ?thesis by blast
qed

theorem stencil_radial_symmetry_witness:
  "TriMeshStencil_init exact_ops \<lparr> ndim = 1, entries = [Fin 1, Fin 2, Fin 3] \<rparr> None
     = (Inr \<lparr> self_n = 3, self_pattern = [Fin 1, Fin 2, Fin 3],
               self_start_ip = [- 2, - 2, - 1], self_row_length = [5, 4, 3],
               self_half_hex = [[Fin 3, Fin 2, Fin 1, Fin 2, Fin 3],
                                [Fin 3, Fin 2, Fin 2, Fin 3, NaN],
                                [Fin 3, Fin 3, Fin 3, NaN, NaN]] \<rparr>, [])
   \<and> (1::nat) < 3
   \<and> rev (take (nat 4) [Fin 3, Fin 2, Fin 2, Fin 3, NaN]) = take (nat 4) [Fin 3, Fin 2, Fin 2, Fin 3, NaN]
   \<and> take (nat 4) [Fin 3, Fin 2, Fin 2, Fin 3, NaN]
       = rev (drop (1 + 1) [Fin 1, Fin 2, Fin 3]) @ replicate (1 + 1) (Fin 2) @ drop (1 + 1) [Fin 1, Fin 2, Fin 3]"
proof -
  have h: "TriMeshStencil_init exact_ops \<lparr> ndim = 1, entries = [Fin 1, Fin 2, Fin 3] \<rparr> None
     = (Inr \<lparr> self_n = 3, self_pattern = [Fin 1, Fin 2, Fin 3],
               self_start_ip = [- 2, - 2, - 1], self_row_length = [5, 4, 3],
               self_half_hex = [[Fin 3, Fin 2, Fin 1, Fin 2, Fin 3],
                                [Fin 3, Fin 2, Fin 2, Fin 3, NaN],
                                [Fin 3, Fin 3, Fin 3, NaN, NaN]] \<rparr>, [])"
    by code_simp
  show ?thesis using stencil_radial_symmetry [OF h, of 1] h by simp
qed

section \<open>Loops without exceptions\<close>

lemma for_loop_fold:
  assumes "Inv s"
    and "\<And>x s. x \<in> set xs \<Longrightarrow> Inv s \<Longrightarrow> body x s = Inr (g x s) \<and> Inv (g x s)"
  shows "for_loop xs body s = Inr (fold g xs s) \<and> Inv (fold g xs s)"
  using assms
proof (induction xs arbitrary: s)
  case Nil
  then show ?case by simp
next
  case (Cons x xs)
  have 1: "body x s = Inr (g x s)" "Inv (g x s)" using Cons.prems by simp_all
  have "for_loop xs body (g x s) = Inr (fold g xs (g x s)) \<and> Inv (fold g xs (g x s))"
    using Cons.prems(2) by (intro Cons.IH [OF 1(2)]) simp
  then show ?case using 1 by simp
qed

lemma rect_nth: "rect H W a \<Longrightarrow> r < H \<Longrightarrow> length (a ! r) = W"
  by (simp add: rect_def list_all_length)

lemma rect_length: "rect H W a \<Longrightarrow> length a = H"
  by (simp add: rect_def)

lemma rect_np_full2: "rect H W (np_full2 H W v)"
  by (simp add: rect_def np_full2_def list_all_length)

lemma rect_padded: "rect (nj + 2 * b) (ni + 2 * b) (padded b nj ni fill z)"
  by (simp add: rect_def padded_def list_all_length)

lemma get2_nat:
  "r < length a \<Longrightarrow> c < length (a ! r) \<Longrightarrow> get2 a (int r) (int c) = Inr (a ! r ! c)"
  by (simp add: get2_def get1_nat)

lemma set2_nat:
  "r < length a \<Longrightarrow> c < length (a ! r) \<Longrightarrow>
   set2 a (int r) (int c) v = Inr (a[r := (a ! r)[c := v]])"
  by (simp add: set2_def np_index_def)

lemma padded_nth:
  "r < nj + 2 * b \<Longrightarrow> c < ni + 2 * b \<Longrightarrow>
   padded b nj ni fill z ! r ! c =
     (if b \<le> r \<and> r < b + nj \<and> b \<le> c \<and> c < b + ni then z ! (r - b) ! (c - b) else fill)"
  by (simp add: padded_def)

lemma padded_lattice_at:
  assumes "rect nj ni z" "r < nj + 2 * b" "c < ni + 2 * b"
  shows "padded b nj ni (op_nan ops) z ! r ! c = lattice_at ops z (int r - int b) (int c - int b)"
proof (cases "b \<le> r \<and> r < b + nj \<and> b \<le> c \<and> c < b + ni")
  case True
  then have "r - b < nj" by linarith
  then have l: "length (z ! (r - b)) = ni" using assms(1) by (rule rect_nth [rotated])
  have n: "nat (int r - int b) = r - b" "nat (int c - int b) = c - b" by linarith+
  show ?thesis
    unfolding padded_nth [OF assms(2,3)] lattice_at_def n l rect_length [OF assms(1)]
    using True by auto
next
  case False
  have neg: "\<not> (0 \<le> int r - int b \<and> int r - int b < int (length z) \<and> 0 \<le> int c - int b
        \<and> int c - int b < int (length (z ! nat (int r - int b))))"
  proof (cases "b \<le> r \<and> r < b + nj")
    case True
    then have "r - b < nj" by linarith
    then have l: "length (z ! (r - b)) = ni" using assms(1) by (rule rect_nth [rotated])
    have n: "nat (int r - int b) = r - b" by linarith
    show ?thesis unfolding l n rect_length [OF assms(1)] using False True by linarith
  next
    case False
    then show ?thesis unfolding rect_length [OF assms(1)] by linarith
  qed
  have "lattice_at ops z (int r - int b) (int c - int b) = op_nan ops"
    unfolding lattice_at_def using neg by (rule if_not_P)
  moreover have "padded b nj ni (op_nan ops) z ! r ! c = op_nan ops"
    unfolding padded_nth [OF assms(2,3)] by (simp only: False if_False)
  ultimately show ?thesis by simp
qed

lemma padded_row:
  assumes "r < nj + 2 * b"
  shows "padded b nj ni fill z ! r =
     (if b \<le> r \<and> r < b + nj
      then map (\<lambda>c. if b \<le> c \<and> c < b + ni then z ! (r - b) ! (c - b) else fill) [0..<ni + 2 * b]
      else replicate (ni + 2 * b) fill)"
proof (cases "b \<le> r \<and> r < b + nj")
  case True
  then show ?thesis using assms by (simp add: padded_def)
next
  case False
  have "padded b nj ni fill z ! r = map (\<lambda>c. fill) [0..<ni + 2 * b]"
    using assms False by (auto simp: padded_def)
  then show ?thesis by (simp only: False if_False map_replicate_const length_upt diff_zero)
qed

lemma block_set_padded:
  assumes "rect nj ni z"
  shows "block_set (np_full2 (nj + 2 * b) (ni + 2 * b) fill) b (b + nj) b (b + ni) z
         = Inr (padded b nj ni fill z)"
proof -
  let ?H = "nj + 2 * b" and ?W = "ni + 2 * b"
  let ?a = "np_full2 ?H ?W fill"
  have la: "length ?a = ?H" by (simp add: np_full2_def)
  have rows: "min (b + nj) (length ?a) - min b (length ?a) = nj" unfolding la by simp
  have lz: "length z = nj" using assms by (rule rect_length)
  show ?thesis
  proof (cases "?H = 0")
    case True
    then have "nj = 0" "b = 0" by simp_all
    then show ?thesis using lz by (simp add: block_set_def np_full2_def padded_def)
  next
    case False
    then have "?a = replicate ?W fill # replicate (?H - 1) (replicate ?W fill)"
      unfolding np_full2_def by (cases ?H) simp_all
    then have w: "width ?a = ?W" by (simp add: width_def)
    have cols: "min (b + ni) (width ?a) - min b (width ?a) = ni" unfolding w by simp
    have ok: "length z = nj \<and> list_all (\<lambda>s. length s = ni) z"
      using assms by (simp add: rect_def)
    have "map (\<lambda>r. if b \<le> r \<and> r < b + nj
                   then take b (?a ! r) @ z ! (r - b) @ drop (b + ni) (?a ! r)
                   else ?a ! r) [0..<?H] = padded b nj ni fill z"
    proof (rule nth_equalityI)
      show "length (map (\<lambda>r. if b \<le> r \<and> r < b + nj
                   then take b (?a ! r) @ z ! (r - b) @ drop (b + ni) (?a ! r)
                   else ?a ! r) [0..<?H]) = length (padded b nj ni fill z)"
        by (simp add: padded_def)
    next
      fix r assume "r < length (map (\<lambda>r. if b \<le> r \<and> r < b + nj
                   then take b (?a ! r) @ z ! (r - b) @ drop (b + ni) (?a ! r)
                   else ?a ! r) [0..<?H])"
      then have r: "r < ?H" by simp
      have ar: "?a ! r = replicate ?W fill" using r by (simp add: np_full2_def)
      show "map (\<lambda>r. if b \<le> r \<and> r < b + nj
                   then take b (?a ! r) @ z ! (r - b) @ drop (b + ni) (?a ! r)
                   else ?a ! r) [0..<?H] ! r = padded b nj ni fill z ! r"
      proof (cases "b \<le> r \<and> r < b + nj")
        case True
        then have "r - b < nj" by linarith
        then have l: "length (z ! (r - b)) = ni" using assms by (rule rect_nth [rotated])
        have "take b (replicate ?W fill) @ z ! (r - b) @ drop (b + ni) (replicate ?W fill)
            = map (\<lambda>c. if b \<le> c \<and> c < b + ni then z ! (r - b) ! (c - b) else fill) [0..<?W]"
          by (rule nth_equalityI) (auto simp: l nth_append)
        then show ?thesis unfolding padded_row [OF r] using r True by (simp add: ar)
      next
        case False
        have "?a ! r = padded b nj ni fill z ! r"
          unfolding padded_row [OF r] ar by (simp only: False if_False)
        then show ?thesis using r by (simp add: False)
      qed
    qed
    then show ?thesis
      unfolding block_set_def Let_def rows cols la using ok by simp
  qed
qed

section \<open>The taps of one output cell\<close>

lemma tap_bounds:
  fixes jp ip n b j nj i ni js :: nat
  assumes "jp < n" "ip < 2 * n - 1 - jp" "n \<le> b" "j < nj" "i < ni" "js \<le> jp mod 2"
  shows "b + j - jp < nj + 2 * b" "b + j + jp < nj + 2 * b"
    and "n - 1 \<le> b + i + jp div 2 + ip + js"
    and "b + i + jp div 2 + ip + js - (n - 1) < ni + 2 * b"
proof -
  have h: "jp div 2 + js \<le> jp" using assms(6) by linarith
  show "b + j - jp < nj + 2 * b" "b + j + jp < nj + 2 * b" using assms by linarith+
  show "n - 1 \<le> b + i + jp div 2 + ip + js" using assms by linarith
  show "b + i + jp div 2 + ip + js - (n - 1) < ni + 2 * b" using assms h by linarith
qed

lemma length_buffer_row: "jp < length p \<Longrightarrow> length (buffer_row ops p jp) = 2 * length p - 1"
  by (simp add: buffer_row_def length_row_values)

lemma fold_tapstep:
  "fold (tapstep ops z) ts (a, s) =
     (foldl (\<lambda>a vw. op_add ops a (op_mul ops (fst vw) (snd vw))) a
        (filter (\<lambda>vw. \<not> op_isnan ops (fst vw))
           (map (\<lambda>t. (lattice_at ops z (fst t) (fst (snd t)), snd (snd t))) ts)),
      foldl (\<lambda>s vw. op_add ops s (snd vw)) s
        (filter (\<lambda>vw. \<not> op_isnan ops (fst vw))
           (map (\<lambda>t. (lattice_at ops z (fst t) (fst (snd t)), snd (snd t))) ts)))"
  by (induction ts arbitrary: a s) (simp_all add: tapstep_def accumulate_def)

lemma spec_cell_fold:
  "spec_cell ops st z j i =
     (let acc = fold (tapstep ops z) (taps st j i) (op_zero ops, op_zero ops)
      in if op_nonzero ops (snd acc) then op_div ops (fst acc) (snd acc) else op_nan ops)"
  unfolding fold_tapstep spec_cell_def Let_def by simp

section \<open>The loops over the output cells\<close>

lemma rect_grid: "rect (nj + 2 * b) (ni + 2 * b) (grid ops b nj ni f)"
  by (simp add: rect_def grid_def list_all_length)

lemma grid_nth:
  "r < nj + 2 * b \<Longrightarrow> c < ni + 2 * b \<Longrightarrow>
   grid ops b nj ni f ! r ! c =
     (if b \<le> r \<and> r < b + nj \<and> b \<le> c \<and> c < b + ni then f (r - b) (c - b) else op_nan ops)"
  by (simp add: grid_def)

lemma rect_eqI:
  assumes "rect H W a" "rect H W a'"
    and "\<And>r c. r < H \<Longrightarrow> c < W \<Longrightarrow> a ! r ! c = a' ! r ! c"
  shows "a = a'"
proof (rule nth_equalityI)
  show "length a = length a'" using assms(1,2) by (simp add: rect_def)
next
  fix r assume "r < length a"
  then have r: "r < H" using assms(1) by (simp add: rect_def)
  show "a ! r = a' ! r"
  proof (rule nth_equalityI)
    show "length (a ! r) = length (a' ! r)"
      using rect_nth [OF assms(1) r] rect_nth [OF assms(2) r] by simp
  next
    fix c assume "c < length (a ! r)"
    then have "c < W" using rect_nth [OF assms(1) r] by simp
    then show "a ! r ! c = a' ! r ! c" using r by (rule assms(3) [rotated])
  qed
qed

lemma grid_cong:
  assumes "\<And>j i. j < nj \<Longrightarrow> i < ni \<Longrightarrow> f j i = g j i"
  shows "grid ops b nj ni f = grid ops b nj ni g"
proof (rule rect_eqI [OF rect_grid rect_grid])
  fix r c assume rc: "r < nj + 2 * b" "c < ni + 2 * b"
  show "grid ops b nj ni f ! r ! c = grid ops b nj ni g ! r ! c"
  proof (cases "b \<le> r \<and> r < b + nj \<and> b \<le> c \<and> c < b + ni")
    case True
    then have "r - b < nj" "c - b < ni" by linarith+
    then have "f (r - b) (c - b) = g (r - b) (c - b)" by (rule assms)
    then show ?thesis unfolding grid_nth [OF rc] by simp
  next
    case False
    show ?thesis unfolding grid_nth [OF rc] by (simp only: False if_False)
  qed
qed

lemma rect_update:
  assumes "rect H W a"
  shows "rect H W (a[r := (a ! r)[c := v]])"
proof -
  have l: "length a = H" using assms by (rule rect_length)
  have "length (a[r := (a ! r)[c := v]] ! n) = W" if n: "n < H" for n
  proof (cases "n = r")
    case True
    then have "a[r := (a ! r)[c := v]] ! n = (a ! r)[c := v]" using n l by simp
    then show ?thesis using rect_nth [OF assms n] True by simp
  next
    case False
    then have "a[r := (a ! r)[c := v]] ! n = a ! n" by simp
    then show ?thesis using rect_nth [OF assms n] by simp
  qed
  then show ?thesis using l by (simp add: rect_def list_all_length)
qed

lemma grid_update:
  assumes "j < nj" "i < ni"
  shows "(grid ops b nj ni f)[b + j := (grid ops b nj ni f ! (b + j))[b + i := v]]
         = grid ops b nj ni (\<lambda>j' i'. if j' = j \<and> i' = i then v else f j' i')"
proof (rule rect_eqI [OF _ rect_grid])
  let ?G = "grid ops b nj ni f"
  have l: "length ?G = nj + 2 * b" by (rule rect_length [OF rect_grid])
  show "rect (nj + 2 * b) (ni + 2 * b) (?G[b + j := (?G ! (b + j))[b + i := v]])"
    by (rule rect_update [OF rect_grid])
next
  let ?G = "grid ops b nj ni f"
  fix r c assume rc: "r < nj + 2 * b" "c < ni + 2 * b"
  have l: "length ?G = nj + 2 * b" by (rule rect_length [OF rect_grid])
  have lr: "length (?G ! r) = ni + 2 * b" by (rule rect_nth [OF rect_grid rc(1)])
  show "?G[b + j := (?G ! (b + j))[b + i := v]] ! r ! c
        = grid ops b nj ni (\<lambda>j' i'. if j' = j \<and> i' = i then v else f j' i') ! r ! c"
  proof (cases "r = b + j")
    case True
    have lj: "length (?G ! (b + j)) = ni + 2 * b" using lr unfolding True .
    show ?thesis
    proof (cases "c = b + i")
      case c: True
      show ?thesis
        unfolding grid_nth [OF rc] using assms rc l lj unfolding True c by simp
    next
      case c: False
      then have "b \<le> c \<Longrightarrow> c - b \<noteq> i" by linarith
      then show ?thesis
        unfolding grid_nth [OF rc] using assms rc l lj c True
        by (auto simp: grid_nth)
    qed
  next
    case False
    then have "\<not> (r - b = j \<and> b \<le> r)" by linarith
    then show ?thesis
      unfolding grid_nth [OF rc] using False rc by (auto simp: grid_nth)
  qed
qed

lemma np_full2_grid: "np_full2 (nj + 2 * b) (ni + 2 * b) (op_nan ops) = grid ops b nj ni (\<lambda>j i. (op_nan ops))"
  by (rule rect_eqI [OF rect_np_full2 rect_grid]) (simp add: grid_nth np_full2_def)

lemma slice2_grid:
  "slice2 (grid ops b nj ni f) b (b + nj) b (b + ni) = map (\<lambda>j. map (\<lambda>i. f j i) [0..<ni]) [0..<nj]"
proof (rule nth_equalityI)
  show "length (slice2 (grid ops b nj ni f) b (b + nj) b (b + ni))
        = length (map (\<lambda>j. map (\<lambda>i. f j i) [0..<ni]) [0..<nj])"
    by (simp add: slice2_def grid_def)
next
  fix j assume "j < length (slice2 (grid ops b nj ni f) b (b + nj) b (b + ni))"
  then have j: "j < nj" by (simp add: slice2_def grid_def)
  have "slice2 (grid ops b nj ni f) b (b + nj) b (b + ni) ! j
        = take ni (drop b (grid ops b nj ni f ! (b + j)))"
    using j by (simp add: slice2_def grid_def)
  also have "\<dots> = map (\<lambda>i. f j i) [0..<ni]"
  proof (rule nth_equalityI)
    show "length (take ni (drop b (grid ops b nj ni f ! (b + j)))) = length (map (\<lambda>i. f j i) [0..<ni])"
      using j by (simp add: grid_def)
  next
    fix i assume "i < length (take ni (drop b (grid ops b nj ni f ! (b + j))))"
    then have i: "i < ni" by simp
    have "b + j < nj + 2 * b" "b + i < ni + 2 * b" using i j by linarith+
    from grid_nth [OF this, where f = f]
    have "grid ops b nj ni f ! (b + j) ! (b + i) = f j i" using i j by simp
    moreover have "b + i < length (grid ops b nj ni f ! (b + j))"
      using i j by (simp add: grid_def)
    ultimately show "take ni (drop b (grid ops b nj ni f ! (b + j))) ! i = map (\<lambda>i. f j i) [0..<ni] ! i"
      using i by simp
  qed
  finally show "slice2 (grid ops b nj ni f) b (b + nj) b (b + ni) ! j
        = map (\<lambda>j. map (\<lambda>i. f j i) [0..<ni]) [0..<nj] ! j"
    using j by simp
qed

section \<open>The kernel on a stencil of the built shape\<close>

lemma shape_lengths:
  assumes "stencil_shape st"
  shows "length (self_start_ip st) = self_n st" "length (self_row_length st) = self_n st"
    "length (self_half_hex st) = self_n st"
  using assms by (simp_all add: stencil_shape_def)

lemma shape_start_ip:
  "stencil_shape st \<Longrightarrow> jp < self_n st \<Longrightarrow>
   self_start_ip st ! jp = - (int (self_n st) - 1) + int (jp div 2)"
  by (simp add: stencil_shape_def)

lemma shape_row_length:
  "stencil_shape st \<Longrightarrow> jp < self_n st \<Longrightarrow>
   self_row_length st ! jp = 2 * int (self_n st) - 1 - int jp"
  by (simp add: stencil_shape_def)

lemma shape_row_length_nat:
  assumes "stencil_shape st" "jp < self_n st"
  shows "nat (self_row_length st ! jp) = 2 * self_n st - 1 - jp"
  unfolding shape_row_length [OF assms] using assms(2) by linarith

lemma shape_slots:
  "stencil_shape st \<Longrightarrow> jp < self_n st \<Longrightarrow>
   nat (self_row_length st ! jp) \<le> length (self_half_hex st ! jp)"
  unfolding stencil_shape_def by blast

lemma built_shape: "stencil_shape (built ops p)"
  unfolding stencil_shape_def built_simps(1,3,4,5)
  by (auto simp: built_simps(6,7,8) length_buffer_row)

lemma ip_body_shaped:
  assumes z: "rect nj ni z" and sh: "stencil_shape st" and n: "self_n st \<le> b" and b: "even b"
    and jp: "jp < self_n st" and ip: "ip < nat (self_row_length st ! jp)"
    and j: "j < nj" and i: "i < ni"
  shows "ip_body ops (self_half_hex st) (padded b nj ni (op_nan ops) z) (b + i) jp
           ((jp mod 2) * ((b + j) mod 2)) (self_start_ip st ! jp)
           (int (b + j) - int jp) (int (b + j) + int jp) ip acc
         = Inr (fold (tapstep ops z) (slot_taps st j i jp ip) acc)"
proof -
  let ?n = "self_n st"
  let ?P = "padded b nj ni (op_nan ops) z"
  let ?hh = "self_half_hex st"
  define js where "js = (jp mod 2) * ((b + j) mod 2)"
  define cn where "cn = b + i + jp div 2 + ip + js - (?n - 1)"
  have "(b + j) mod 2 \<le> 1" by arith
  then have js: "js \<le> jp mod 2"
    unfolding js_def using mult_le_mono2 [of "(b + j) mod 2" 1 "jp mod 2"] by simp
  have ip': "ip < 2 * ?n - 1 - jp" using ip unfolding shape_row_length_nat [OF sh jp] .
  note tb = tap_bounds [OF jp ip' n j i js]
  have sip: "self_start_ip st ! jp = - (int ?n - 1) + int (jp div 2)"
    using sh jp by (rule shape_start_ip)
  have n1: "int (?n - 1) = int ?n - 1" using jp by linarith
  have "int cn = int (b + i + jp div 2 + ip + js) - int (?n - 1)"
    unfolding cn_def using tb(3) by (rule of_nat_diff)
  then have col: "int (b + i) + (- (int ?n - 1) + int (jp div 2)) + int ip + int js = int cn"
    unfolding n1 by simp
  have rm: "int (b + j) - int jp = int (b + j - jp)" using n jp by linarith
  have rp: "int (b + j) + int jp = int (b + j + jp)" by simp
  have lP: "length ?P = nj + 2 * b" by (rule rect_length [OF rect_padded])
  have cb: "cn < ni + 2 * b" unfolding cn_def by (rule tb(4))
  have g1: "get2 ?P (int (b + j - jp)) (int cn) = Inr (?P ! (b + j - jp) ! cn)"
    using tb(1) cb by (intro get2_nat) (simp_all add: lP rect_nth [OF rect_padded])
  have g2: "get2 ?P (int (b + j + jp)) (int cn) = Inr (?P ! (b + j + jp) ! cn)"
    using tb(2) cb by (intro get2_nat) (simp_all add: lP rect_nth [OF rect_padded])
  have g3: "get2 ?hh (int jp) (int ip) = Inr (?hh ! jp ! ip)"
  proof (rule get2_nat)
    show "jp < length ?hh" using jp shape_lengths [OF sh] by simp
    show "ip < length (?hh ! jp)" using ip shape_slots [OF sh jp] by linarith
  qed
  have bj: "(b + j) mod 2 = j mod 2" using b by presburger
  have par: "(if odd jp then int (j mod 2) else 0) = int js"
    unfolding js_def bj by (cases "odd jp") (simp_all add: odd_iff_mod_2_eq_one)
  have lcol: "int cn - int b = int i + self_start_ip st ! jp + int ip + (if odd jp then int (j mod 2) else 0)"
    unfolding par sip col [symmetric] by simp
  have r1: "int (b + j - jp) - int b = int j - int jp" using n jp by linarith
  have r2: "int (b + j + jp) - int b = int j + int jp" by linarith
  have v1: "?P ! (b + j - jp) ! cn = lattice_at ops z (int j - int jp)
       (int i + self_start_ip st ! jp + int ip + (if odd jp then int (j mod 2) else 0))"
    by (simp only: padded_lattice_at [OF z tb(1) cb] lcol r1)
  have v2: "?P ! (b + j + jp) ! cn = lattice_at ops z (int j + int jp)
       (int i + self_start_ip st ! jp + int ip + (if odd jp then int (j mod 2) else 0))"
    by (simp only: padded_lattice_at [OF z tb(2) cb] lcol r2)
  have lhs: "ip_body ops ?hh ?P (b + i) jp js (self_start_ip st ! jp)
           (int (b + j) - int jp) (int (b + j) + int jp) ip acc
      = Inr (if jp \<noteq> 0
             then accumulate ops (?P ! (b + j + jp) ! cn) (?hh ! jp ! ip)
                    (accumulate ops (?P ! (b + j - jp) ! cn) (?hh ! jp ! ip) acc)
             else accumulate ops (?P ! (b + j - jp) ! cn) (?hh ! jp ! ip) acc)"
    by (simp only: ip_body_def Let_def sip col rm rp g1 g2 g3 ebind.simps if_distrib [of Inr])
  have rhs: "fold (tapstep ops z) (slot_taps st j i jp ip) acc
      = (if jp \<noteq> 0
         then tapstep ops z (int j + int jp, int i + self_start_ip st ! jp + int ip + (if odd jp then int (j mod 2) else 0), ?hh ! jp ! ip)
                (tapstep ops z (int j - int jp, int i + self_start_ip st ! jp + int ip + (if odd jp then int (j mod 2) else 0), ?hh ! jp ! ip) acc)
         else tapstep ops z (int j - int jp, int i + self_start_ip st ! jp + int ip + (if odd jp then int (j mod 2) else 0), ?hh ! jp ! ip) acc)"
    by (cases "jp = 0") (simp_all add: slot_taps_def Let_def del: of_nat_mod)
  show ?thesis
    unfolding js_def [symmetric] lhs v1 v2 rhs tapstep_def fst_conv snd_conv ..
qed

lemma fold_concat_map:
  "fold f (concat (map h xs)) s = fold (\<lambda>x. fold f (h x)) xs s"
  by (induction xs arbitrary: s) simp_all

lemma jp_body_shaped:
  assumes z: "rect nj ni z" and sh: "stencil_shape st" and n: "self_n st \<le> b" and b: "even b"
    and jp: "jp < self_n st" and j: "j < nj" and i: "i < ni"
  shows "jp_body ops (self_start_ip st) (self_row_length st) (self_half_hex st)
           (padded b nj ni (op_nan ops) z) (b + j) (b + i) jp acc
         = Inr (fold (tapstep ops z)
             (concat (map (slot_taps st j i jp) [0..<nat (self_row_length st ! jp)]))
             acc)"
proof -
  let ?st = "st"
  let ?m = "nat (self_row_length ?st ! jp)"
  have g1: "get1 (self_start_ip ?st) (int jp) = Inr (self_start_ip ?st ! jp)"
    using jp shape_lengths [OF sh] by (intro get1_nat) simp
  have g2: "get1 (self_row_length ?st) (int jp) = Inr (self_row_length ?st ! jp)"
    using jp shape_lengths [OF sh] by (intro get1_nat) simp
  have loop: "for_loop [0..<?m]
       (ip_body ops (self_half_hex ?st) (padded b nj ni (op_nan ops) z) (b + i) jp
          ((jp mod 2) * ((b + j) mod 2)) (self_start_ip ?st ! jp)
          (int (b + j) - int jp) (int (b + j) + int jp)) acc
     = Inr (fold (\<lambda>ip. fold (tapstep ops z) (slot_taps ?st j i jp ip)) [0..<?m] acc) \<and> True"
  proof (rule for_loop_fold)
    show True ..
  next
    fix ip s assume "ip \<in> set [0..<?m]" "True"
    then have "ip < ?m" by simp
    from ip_body_shaped [OF z sh n b jp this j i]
    show "ip_body ops (self_half_hex ?st) (padded b nj ni (op_nan ops) z) (b + i) jp
          ((jp mod 2) * ((b + j) mod 2)) (self_start_ip ?st ! jp)
          (int (b + j) - int jp) (int (b + j) + int jp) ip s
       = Inr (fold (tapstep ops z) (slot_taps ?st j i jp ip) s) \<and> True"
      by simp
  qed
  show ?thesis
    unfolding jp_body_def Let_def g1 g2 ebind.simps fold_concat_map
    using loop by simp
qed

lemma cell_sums_shaped:
  assumes z: "rect nj ni z" and sh: "stencil_shape st" and n: "self_n st \<le> b" and b: "even b"
    and j: "j < nj" and i: "i < ni"
  shows "cell_sums ops (self_n st) (self_start_ip st) (self_row_length st)
           (self_half_hex st) (padded b nj ni (op_nan ops) z) (b + j) (b + i)
         = Inr (fold (tapstep ops z) (taps st j i) (op_zero ops, op_zero ops))"
proof -
  let ?st = "st"
  have "for_loop [0..<self_n ?st]
       (jp_body ops (self_start_ip ?st) (self_row_length ?st) (self_half_hex ?st)
          (padded b nj ni (op_nan ops) z) (b + j) (b + i)) (op_zero ops, op_zero ops)
     = Inr (fold (\<lambda>jp. fold (tapstep ops z)
              (concat (map (slot_taps ?st j i jp) [0..<nat (self_row_length ?st ! jp)])))
            [0..<self_n ?st] (op_zero ops, op_zero ops)) \<and> True"
  proof (rule for_loop_fold)
    show True ..
  next
    fix jp s assume "jp \<in> set [0..<self_n ?st]" "True"
    then have "jp < self_n st" by simp
    from jp_body_shaped [OF z sh n b this j i]
    show "jp_body ops (self_start_ip ?st) (self_row_length ?st) (self_half_hex ?st)
          (padded b nj ni (op_nan ops) z) (b + j) (b + i) jp s
       = Inr (fold (tapstep ops z)
              (concat (map (slot_taps ?st j i jp) [0..<nat (self_row_length ?st ! jp)])) s) \<and> True"
      by simp
  qed
  then show ?thesis
    unfolding cell_sums_def taps_def fold_concat_map by simp
qed

lemma i_body_shaped:
  assumes z: "rect nj ni z" and sh: "stencil_shape st" and n: "self_n st \<le> b" and b: "even b"
    and j: "j < nj" and i: "i < ni" and f: "f j i = op_nan ops"
  shows "i_body ops (self_n st) (self_start_ip st) (self_row_length st)
           (self_half_hex st) (padded b nj ni (op_nan ops) z) (b + j) (b + i) (grid ops b nj ni f)
         = Inr (grid ops b nj ni (\<lambda>j' i'. if j' = j \<and> i' = i then spec_cell ops st z j i else f j' i'))"
proof -
  let ?st = "st"
  let ?G = "grid ops b nj ni f"
  define acc where "acc = fold (tapstep ops z) (taps ?st j i) (op_zero ops, op_zero ops)"
  have cs: "cell_sums ops (self_n ?st) (self_start_ip ?st) (self_row_length ?st)
           (self_half_hex ?st) (padded b nj ni (op_nan ops) z) (b + j) (b + i) = Inr acc"
    unfolding acc_def by (rule cell_sums_shaped [OF z sh n b j i])
  have sc: "spec_cell ops ?st z j i = (if op_nonzero ops (snd acc) then op_div ops (fst acc) (snd acc) else op_nan ops)"
    unfolding acc_def spec_cell_fold Let_def ..
  have lG: "b + j < length ?G" using j by (simp add: rect_length [OF rect_grid])
  have "b + j < nj + 2 * b" using j by simp
  then have lr: "b + i < length (?G ! (b + j))" using i by (simp add: rect_nth [OF rect_grid])
  show ?thesis
  proof (cases "op_nonzero ops (snd acc)")
    case True
    have "i_body ops (self_n ?st) (self_start_ip ?st) (self_row_length ?st)
           (self_half_hex ?st) (padded b nj ni (op_nan ops) z) (b + j) (b + i) ?G
        = set2 ?G (int (b + j)) (int (b + i)) (spec_cell ops ?st z j i)"
      unfolding i_body_def cs ebind.simps sc using True by simp
    also have "\<dots> = Inr (?G[b + j := (?G ! (b + j))[b + i := spec_cell ops ?st z j i]])"
      using lG lr by (rule set2_nat)
    finally show ?thesis unfolding grid_update [OF j i] .
  next
    case False
    have "i_body ops (self_n ?st) (self_start_ip ?st) (self_row_length ?st)
           (self_half_hex ?st) (padded b nj ni (op_nan ops) z) (b + j) (b + i) ?G = Inr ?G"
      unfolding i_body_def cs ebind.simps using False by simp
    moreover have "spec_cell ops ?st z j i = op_nan ops" unfolding sc using False by simp
    then have "?G = grid ops b nj ni (\<lambda>j' i'. if j' = j \<and> i' = i then spec_cell ops ?st z j i else f j' i')"
      using f by (intro grid_cong) auto
    ultimately show ?thesis by simp
  qed
qed

lemma done_upto_step:
  "(\<lambda>j' i'. if j' = j \<and> i' = k then spec_cell ops st z j k else done_upto ops st z j k j' i')
   = done_upto ops st z j (Suc k)"
  by (auto simp: fun_eq_iff done_upto_def less_Suc_eq)

lemma i_loop_shaped:
  assumes z: "rect nj ni z" and sh: "stencil_shape st" and n: "self_n st \<le> b" and b: "even b" and j: "j < nj"
  shows "k \<le> ni \<Longrightarrow>
    for_loop [b..<b + k]
      (i_body ops (self_n st) (self_start_ip st) (self_row_length st)
         (self_half_hex st) (padded b nj ni (op_nan ops) z) (b + j))
      (grid ops b nj ni (done_upto ops st z j 0))
    = Inr (grid ops b nj ni (done_upto ops st z j k))"
proof (induction k)
  case 0
  then show ?case by simp
next
  case (Suc k)
  have e: "[b..<b + Suc k] = [b..<b + k] @ [b + k]" by simp
  have k: "k < ni" using Suc.prems by simp
  have ih: "for_loop [b..<b + k]
      (i_body ops (self_n st) (self_start_ip st) (self_row_length st)
         (self_half_hex st) (padded b nj ni (op_nan ops) z) (b + j))
      (grid ops b nj ni (done_upto ops st z j 0))
    = Inr (grid ops b nj ni (done_upto ops st z j k))"
    using Suc by simp
  have f: "done_upto ops st z j k j k = op_nan ops" by (simp add: done_upto_def)
  show ?case
    unfolding e for_loop_append ih ebind.simps for_loop.simps
      i_body_shaped [where f = "done_upto ops st z j k", OF z sh n b j k f] done_upto_step ..
qed

lemma j_loop_shaped:
  assumes z: "rect nj ni z" and sh: "stencil_shape st" and n: "self_n st \<le> b" and b: "even b"
  shows "m \<le> nj \<Longrightarrow>
    for_loop [b..<b + m]
      (\<lambda>J. for_loop [b..<b + ni]
         (i_body ops (self_n st) (self_start_ip st) (self_row_length st)
            (self_half_hex st) (padded b nj ni (op_nan ops) z) J))
      (grid ops b nj ni (done_upto ops st z 0 0))
    = Inr (grid ops b nj ni (done_upto ops st z m 0))"
proof (induction m)
  case 0
  then show ?case by simp
next
  case (Suc m)
  have e: "[b..<b + Suc m] = [b..<b + m] @ [b + m]" by simp
  have m: "m < nj" using Suc.prems by simp
  have ih: "for_loop [b..<b + m]
      (\<lambda>J. for_loop [b..<b + ni]
         (i_body ops (self_n st) (self_start_ip st) (self_row_length st)
            (self_half_hex st) (padded b nj ni (op_nan ops) z) J))
      (grid ops b nj ni (done_upto ops st z 0 0))
    = Inr (grid ops b nj ni (done_upto ops st z m 0))"
    using Suc by simp
  have c: "grid ops b nj ni (done_upto ops st z m ni) = grid ops b nj ni (done_upto ops st z (Suc m) 0)"
    by (rule grid_cong) (auto simp: done_upto_def less_Suc_eq)
  show ?case
    unfolding e for_loop_append ih ebind.simps for_loop.simps
      i_loop_shaped [OF z sh n b m order_refl] c ..
qed

lemma apply_stencil_nanmean_shaped:
  assumes z: "rect nj ni z" and sh: "stencil_shape st" and n: "self_n st \<le> b" and b: "even b"
  shows "apply_stencil_nanmean ops (self_n st) (self_start_ip st)
           (self_row_length st) (self_half_hex st) (padded b nj ni (op_nan ops) z)
           (np_full2 (nj + 2 * b) (ni + 2 * b) (op_nan ops)) b nj ni
         = Inr (grid ops b nj ni (spec_cell ops st z))"
proof -
  have s: "grid ops b nj ni (\<lambda>j i. (op_nan ops)) = grid ops b nj ni (done_upto ops st z 0 0)"
    by (rule grid_cong) (simp add: done_upto_def)
  have f: "grid ops b nj ni (done_upto ops st z nj 0) = grid ops b nj ni (spec_cell ops st z)"
    by (rule grid_cong) (simp add: done_upto_def)
  show ?thesis
    unfolding apply_stencil_nanmean_def np_full2_grid s
      j_loop_shaped [OF z sh n b order_refl] f ..
qed

section \<open>TriMeshStencil.apply\<close>

lemma border_width_eq:
  "(if n mod 2 \<noteq> 0 then n + 1 else n) = border_width n"
  by (simp add: border_width_def even_iff_mod_2_eq_zero)

lemma even_border_width: "even (border_width n)"
  by (simp add: border_width_def)

lemma le_border_width: "n \<le> border_width n"
  by (simp add: border_width_def)

lemma apply_stencil_unfold:
  assumes ok: "mesh_ok tm w"
  shows "apply_stencil ops st tm handle_nan title w =
    (let b = border_width (self_n st);
         nj = mesh_nj tm; ni = mesh_ni tm;
         z = heap w (mesh_z_array tm);
         r = next_free w;
         P = padded b nj ni (if handle_nan then op_nan ops else op_zero ops) z;
         A = np_full2 (nj + 2 * b) (ni + 2 * b) (op_nan ops);
         lg = log w @ [(INFO, ''applying stencil to tri mesh: '' @ title_str (mesh_title tm))]
     in if handle_nan
        then (case apply_stencil_nanmean ops (self_n st) (self_start_ip st) (self_row_length st)
                     (self_half_hex st) P A b nj ni of
                Inl e \<Rightarrow> (Inl e, \<lparr> heap = (heap w)(r := P, Suc r := A), next_free = Suc (Suc r), log = lg \<rparr>)
              | Inr A' \<Rightarrow>
                 (Inr \<lparr> mesh_model = mesh_model tm, mesh_t_side = mesh_t_side tm, mesh_nj = nj,
                        mesh_ni = ni, mesh_origin = mesh_origin tm, mesh_z_uom = mesh_z_uom tm,
                        mesh_title = title, mesh_surface_role = mesh_surface_role tm,
                        mesh_crs_uuid = mesh_crs_uuid tm, mesh_z_array = Suc (Suc r) \<rparr>,
                  \<lparr> heap = (heap w)(r := P, Suc r := A', Suc (Suc r) := slice2 A' b (b + nj) b (b + ni)),
                    next_free = Suc (Suc (Suc r)), log = lg \<rparr>))
        else (Inl (NotImplementedError
                 ''only smoothing style tri mesh stencil application currently available''),
              \<lparr> heap = (heap w)(r := P, Suc r := A), next_free = Suc (Suc r), log = lg \<rparr>))"
proof -
  let ?b = "border_width (self_n st)"
  let ?nj = "mesh_nj tm" and ?ni = "mesh_ni tm"
  let ?z = "heap w (mesh_z_array tm)"
  let ?fill = "if handle_nan then op_nan ops else op_zero ops"
  have z: "rect ?nj ?ni ?z" using ok by (simp add: mesh_ok_def)
  have a: "mesh_z_array tm \<noteq> next_free w" using ok by (simp add: mesh_ok_def)
  have bs: "block_set (np_full2 (?nj + 2 * ?b) (?ni + 2 * ?b) ?fill) ?b (?b + ?nj) ?b (?b + ?ni) ?z
      = Inr (padded ?b ?nj ?ni ?fill ?z)"
    by (rule block_set_padded [OF z])
  show ?thesis
    unfolding apply_stencil_def border_width_eq
    using a
    by (simp add: Let_def alloc_def store_def log_info_def TriMesh_new_def bs
        split: sum.splits)
qed

section \<open>Exceptions and shapes of the kernel, for any stencil\<close>

lemma ebind_Inl:
  assumes "ebind m f = Inl e"
  obtains "m = Inl e" | x where "m = Inr x" "f x = Inl e"
  using assms by (cases m) auto

lemma for_loop_Inl:
  assumes "\<And>x s e. x \<in> set xs \<Longrightarrow> body x s = Inl e \<Longrightarrow> Q e"
    and "for_loop xs body s = Inl e"
  shows "Q e"
  using assms
proof (induction xs arbitrary: s)
  case Nil
  then show ?case by simp
next
  case (Cons x xs)
  from Cons.prems(2) have "ebind (body x s) (for_loop xs body) = Inl e" by simp
  then show ?case
  proof (cases rule: ebind_Inl)
    case 1
    show ?thesis by (rule Cons.prems(1) [of x s e]) (simp_all add: 1)
  next
    case (2 s')
    show ?thesis
    proof (rule Cons.IH [OF _ 2(2)])
      fix xa t e' assume "xa \<in> set xs" "body xa t = Inl e'"
      then show "Q e'" using Cons.prems(1) [of xa t e'] by simp
    qed
  qed
qed

lemma for_loop_Inr_inv:
  assumes "\<And>x s s'. x \<in> set xs \<Longrightarrow> Inv s \<Longrightarrow> body x s = Inr s' \<Longrightarrow> Inv s'"
    and "Inv s" and "for_loop xs body s = Inr s'"
  shows "Inv s'"
  using assms
proof (induction xs arbitrary: s)
  case Nil
  then show ?case by simp
next
  case (Cons x xs)
  from Cons.prems(3) obtain t where t: "body x s = Inr t" "for_loop xs body t = Inr s'"
    by (cases "body x s") auto
  have it: "Inv t" using Cons.prems(1) [of x s t] Cons.prems(2) t(1) by simp
  show ?case
  proof (rule Cons.IH [OF _ it t(2)])
    fix xa u u' assume "xa \<in> set xs" "Inv u" "body xa u = Inr u'"
    then show "Inv u'" using Cons.prems(1) [of xa u u'] by simp
  qed
qed

lemma np_index_Inl: "np_index l k = Inl e \<Longrightarrow> e = IndexError"
  by (simp add: np_index_def split: if_splits)

lemma get1_Inl: "get1 xs k = Inl e \<Longrightarrow> e = IndexError"
  unfolding get1_def by (erule ebind_Inl) (auto dest: np_index_Inl)

lemma get2_Inl: "get2 a j i = Inl e \<Longrightarrow> e = IndexError"
  unfolding get2_def by (erule ebind_Inl) (auto dest: get1_Inl)

lemma set2_Inl:
  assumes "set2 a j i v = Inl e"
  shows "e = IndexError"
  using assms unfolding set2_def
proof (cases rule: ebind_Inl)
  case 1
  then show ?thesis by (rule np_index_Inl)
next
  case (2 j')
  from 2(2) show ?thesis by (cases rule: ebind_Inl) (simp_all add: np_index_Inl)
qed

lemma ip_body_Inl:
  assumes "ip_body ops hh tm_z i jp js i_st j_sm j_sp ip acc = Inl e"
  shows "e = IndexError"
  using assms unfolding ip_body_def Let_def
proof (cases rule: ebind_Inl)
  case 1
  then show ?thesis by (rule get2_Inl)
next
  case (2 v)
  from 2(2) show ?thesis
  proof (cases rule: ebind_Inl)
    case 1
    then show ?thesis by (rule get2_Inl)
  next
    case (2 s)
    show ?thesis
    proof (cases "jp \<noteq> 0")
      case True
      with 2(2) have "ebind (get2 tm_z j_sp (int i + i_st + int ip + int js))
            (\<lambda>v'. Inr (accumulate ops v' s (accumulate ops v s acc))) = Inl e"
        by simp
      then show ?thesis by (cases rule: ebind_Inl) (simp_all add: get2_Inl)
    next
      case False
      with 2(2) show ?thesis by simp
    qed
  qed
qed

lemma jp_body_Inl:
  assumes "jp_body ops start_ip row_length hh tm_z j i jp acc = Inl e"
  shows "e = IndexError"
  using assms unfolding jp_body_def Let_def
proof (cases rule: ebind_Inl)
  case 1
  then show ?thesis by (rule get1_Inl)
next
  case (2 i_st)
  from 2(2) show ?thesis
  proof (cases rule: ebind_Inl)
    case 1
    then show ?thesis by (rule get1_Inl)
  next
    case (2 rl)
    from 2(2) show ?thesis by (rule for_loop_Inl [rotated]) (rule ip_body_Inl)
  qed
qed

lemma cell_sums_Inl:
  assumes "cell_sums ops n start_ip row_length hh tm_z j i = Inl e"
  shows "e = IndexError"
  using assms unfolding cell_sums_def
  by (rule for_loop_Inl [rotated]) (rule jp_body_Inl)

lemma i_body_Inl:
  assumes "i_body ops n start_ip row_length hh tm_z j i applied = Inl e"
  shows "e = IndexError"
  using assms unfolding i_body_def
proof (cases rule: ebind_Inl)
  case 1
  then show ?thesis by (rule cell_sums_Inl)
next
  case (2 acc)
  then show ?thesis by (cases "op_nonzero ops (snd acc)") (simp_all add: set2_Inl)
qed

lemma apply_stencil_nanmean_Inl:
  assumes "apply_stencil_nanmean ops n start_ip row_length hh tm_z applied border onj oni = Inl e"
  shows "e = IndexError"
proof -
  have inner: "e' = IndexError"
    if "for_loop [border..<border + oni] (i_body ops n start_ip row_length hh tm_z j) s = Inl e'"
    for j s e'
    using that by (rule for_loop_Inl [rotated]) (rule i_body_Inl)
  show ?thesis
    using assms unfolding apply_stencil_nanmean_def
    by (rule for_loop_Inl [rotated]) (rule inner)
qed

lemma set2_rect:
  assumes "set2 a j i v = Inr a'" "rect H W a"
  shows "rect H W a'"
proof -
  from assms(1) obtain j' i' where "a' = a[j' := (a ! j')[i' := v]]"
    unfolding set2_def by (auto simp: ebind_Inr_iff)
  then show ?thesis using rect_update [OF assms(2)] by simp
qed

lemma i_body_rect:
  assumes "i_body ops n start_ip row_length hh tm_z j i a = Inr a'" "rect H W a"
  shows "rect H W a'"
proof -
  from assms(1) obtain acc where
    "(if op_nonzero ops (snd acc) then set2 a (int j) (int i) (op_div ops (fst acc) (snd acc)) else Inr a) = Inr a'"
    unfolding i_body_def ebind_Inr_iff by blast
  then show ?thesis
    using assms(2) by (cases "op_nonzero ops (snd acc)") (auto dest: set2_rect)
qed

lemma apply_stencil_nanmean_rect:
  assumes "apply_stencil_nanmean ops n start_ip row_length hh tm_z applied border onj oni = Inr a'"
    and "rect H W applied"
  shows "rect H W a'"
proof -
  have inner: "rect H W s'"
    if "for_loop [border..<border + oni] (i_body ops n start_ip row_length hh tm_z j) s = Inr s'"
      and "rect H W s" for j s s'
    using _ that(2,1)
  proof (rule for_loop_Inr_inv [where Inv = "rect H W"])
    fix x s s' assume "rect H W s" "i_body ops n start_ip row_length hh tm_z j x s = Inr s'"
    then show "rect H W s'" by (rule i_body_rect [rotated])
  qed
  show ?thesis
    using _ assms(2) assms(1) [unfolded apply_stencil_nanmean_def]
  proof (rule for_loop_Inr_inv [where Inv = "rect H W"])
    fix x s s'
    assume "rect H W s"
      "for_loop [border..<border + oni] (i_body ops n start_ip row_length hh tm_z x) s = Inr s'"
    then show "rect H W s'" by (rule inner [rotated])
  qed
qed

lemma slice2_rect:
  assumes "rect (nj + 2 * b) (ni + 2 * b) a"
  shows "rect nj ni (slice2 a b (b + nj) b (b + ni))"
proof -
  have l: "length a = nj + 2 * b" using assms by (rule rect_length)
  have "length (take ni (drop b (a ! (b + k)))) = ni" if "k < nj" for k
  proof -
    have "b + k < nj + 2 * b" using that by simp
    then have "length (a ! (b + k)) = ni + 2 * b" by (rule rect_nth [OF assms])
    then show ?thesis by simp
  qed
  then show ?thesis
    using l by (simp add: rect_def slice2_def list_all_length)
qed

section \<open>Properties of TriMeshStencil.apply\<close>

text \<open>
  Claim C8.  For every stencil and every lattice, \<open>apply\<close> with \<open>handle_nan = False\<close>
  raises \<open>NotImplementedError\<close> (the NotSupportedError of the spec); only the two
  temporary arrays have been allocated then, and no output lattice.  With
  \<open>handle_nan = True\<close> no such error is raised.
\<close>

theorem apply_without_nan_handling:
  assumes "mesh_ok tm w"
  shows "fst (apply_stencil ops st tm False title w)
      = Inl (NotImplementedError
          ''only smoothing style tri mesh stencil application currently available'')
    \<and> next_free (snd (apply_stencil ops st tm False title w)) = next_free w + 2
    \<and> (\<forall>m. fst (apply_stencil ops st tm True title w) \<noteq> Inl (NotImplementedError m))"
proof -
  have 1: "fst (apply_stencil ops st tm False title w)
      = Inl (NotImplementedError
          ''only smoothing style tri mesh stencil application currently available'')"
    and 2: "next_free (snd (apply_stencil ops st tm False title w)) = next_free w + 2"
    unfolding apply_stencil_unfold [OF assms] by (simp_all add: Let_def)
  have 3: "fst (apply_stencil ops st tm True title w) \<noteq> Inl (NotImplementedError m)" for m
    unfolding apply_stencil_unfold [OF assms]
    by (auto simp: Let_def split: sum.splits dest: apply_stencil_nanmean_Inl)
  from 1 2 3 show ?thesis by blast
qed

theorem apply_without_nan_handling_witness:
  "mesh_ok \<lparr> mesh_model = 0, mesh_t_side = Fin 1, mesh_nj = 2, mesh_ni = 3,
        mesh_origin = (Fin 0, Fin 0, Fin 0), mesh_z_uom = ''m'', mesh_title = Some ''t'',
        mesh_surface_role = ''map'', mesh_crs_uuid = ''u'', mesh_z_array = 0 \<rparr> \<lparr> heap = (\<lambda>a. [])(0 := [[Fin 1, Fin 2, NaN], [Fin 4, NaN, Fin 6]]), next_free = 1, log = [] \<rparr>
   \<and> fst (apply_stencil exact_ops \<lparr> self_n = 2, self_pattern = [Fin 0, Fin (1 / 6)], self_start_ip = [- 1, - 1],
        self_row_length = [3, 2],
        self_half_hex = [[Fin (1 / 6), Fin 0, Fin (1 / 6)], [Fin (1 / 6), Fin (1 / 6), NaN]] \<rparr> \<lparr> mesh_model = 0, mesh_t_side = Fin 1, mesh_nj = 2, mesh_ni = 3,
        mesh_origin = (Fin 0, Fin 0, Fin 0), mesh_z_uom = ''m'', mesh_title = Some ''t'',
        mesh_surface_role = ''map'', mesh_crs_uuid = ''u'', mesh_z_array = 0 \<rparr> False None \<lparr> heap = (\<lambda>a. [])(0 := [[Fin 1, Fin 2, NaN], [Fin 4, NaN, Fin 6]]), next_free = 1, log = [] \<rparr>)
      = Inl (NotImplementedError
          ''only smoothing style tri mesh stencil application currently available'')
   \<and> next_free (snd (apply_stencil exact_ops \<lparr> self_n = 2, self_pattern = [Fin 0, Fin (1 / 6)], self_start_ip = [- 1, - 1],
        self_row_length = [3, 2],
        self_half_hex = [[Fin (1 / 6), Fin 0, Fin (1 / 6)], [Fin (1 / 6), Fin (1 / 6), NaN]] \<rparr> \<lparr> mesh_model = 0, mesh_t_side = Fin 1, mesh_nj = 2, mesh_ni = 3,
        mesh_origin = (Fin 0, Fin 0, Fin 0), mesh_z_uom = ''m'', mesh_title = Some ''t'',
        mesh_surface_role = ''map'', mesh_crs_uuid = ''u'', mesh_z_array = 0 \<rparr> False None \<lparr> heap = (\<lambda>a. [])(0 := [[Fin 1, Fin 2, NaN], [Fin 4, NaN, Fin 6]]), next_free = 1, log = [] \<rparr>)) = 3"
proof -
  have ok: "mesh_ok \<lparr> mesh_model = 0, mesh_t_side = Fin 1, mesh_nj = 2, mesh_ni = 3,
        mesh_origin = (Fin 0, Fin 0, Fin 0), mesh_z_uom = ''m'', mesh_title = Some ''t'',
        mesh_surface_role = ''map'', mesh_crs_uuid = ''u'', mesh_z_array = 0 \<rparr> \<lparr> heap = (\<lambda>a. [])(0 := [[Fin 1, Fin 2, NaN], [Fin 4, NaN, Fin 6]]), next_free = 1, log = [] \<rparr>"
    by (simp add: mesh_ok_def rect_def)
  show ?thesis
    using apply_without_nan_handling [OF ok, where ops = exact_ops and st = "\<lparr> self_n = 2, self_pattern = [Fin 0, Fin (1 / 6)], self_start_ip = [- 1, - 1],
        self_row_length = [3, 2],
        self_half_hex = [[Fin (1 / 6), Fin 0, Fin (1 / 6)], [Fin (1 / 6), Fin (1 / 6), NaN]] \<rparr>" and title = None] ok by simp
qed

text \<open>
  Claim C9.  \<open>apply\<close> never changes the input lattice: every array allocated before
  the call, the z channel of the input among them, is the same after the call, whether
  it returns or raises.  The lattice it returns has the input's edge length, origin,
  unit tag, role tag, reference frame and model, the same row and column counts, and
  a z channel of that shape in an array of its own, allocated by the call.
\<close>

theorem apply_frame:
  assumes "mesh_ok tm w" and "apply_stencil ops st tm handle_nan title w = (res, w')"
  shows "(\<forall>a. a < next_free w \<longrightarrow> heap w' a = heap w a)
    \<and> heap w' (mesh_z_array tm) = heap w (mesh_z_array tm)
    \<and> mesh_ok tm w'
    \<and> (\<forall>tm'. res = Inr tm' \<longrightarrow>
          mesh_t_side tm' = mesh_t_side tm \<and> mesh_origin tm' = mesh_origin tm
          \<and> mesh_z_uom tm' = mesh_z_uom tm \<and> mesh_surface_role tm' = mesh_surface_role tm
          \<and> mesh_crs_uuid tm' = mesh_crs_uuid tm \<and> mesh_model tm' = mesh_model tm
          \<and> mesh_nj tm' = mesh_nj tm \<and> mesh_ni tm' = mesh_ni tm
          \<and> next_free w \<le> mesh_z_array tm' \<and> mesh_ok tm' w')"
proof -
  let ?b = "border_width (self_n st)"
  let ?nj = "mesh_nj tm" and ?ni = "mesh_ni tm"
  let ?P = "padded ?b ?nj ?ni (if handle_nan then op_nan ops else op_zero ops) (heap w (mesh_z_array tm))"
  let ?A = "np_full2 (?nj + 2 * ?b) (?ni + 2 * ?b) (op_nan ops)"
  let ?K = "apply_stencil_nanmean ops (self_n st) (self_start_ip st) (self_row_length st)
              (self_half_hex st) ?P ?A ?b ?nj ?ni"
  have a: "mesh_z_array tm < next_free w"
    and z: "rect ?nj ?ni (heap w (mesh_z_array tm))"
    using assms(1) by (simp_all add: mesh_ok_def)
  note u = assms(2) [unfolded apply_stencil_unfold [OF assms(1)] Let_def]
  show ?thesis
  proof (cases "handle_nan")
    case False
    with u have "res = Inl (NotImplementedError
          ''only smoothing style tri mesh stencil application currently available'')"
      and "w' = \<lparr> heap = (heap w)(next_free w := ?P, Suc (next_free w) := ?A),
                 next_free = Suc (Suc (next_free w)),
                 log = log w @ [(INFO, ''applying stencil to tri mesh: '' @ title_str (mesh_title tm))] \<rparr>"
      by simp_all
    then show ?thesis using a z by (simp add: mesh_ok_def)
  next
    case True
    show ?thesis
    proof (cases ?K)
      case (Inl e)
      with u True have "res = Inl e"
        and "w' = \<lparr> heap = (heap w)(next_free w := ?P, Suc (next_free w) := ?A),
                 next_free = Suc (Suc (next_free w)),
                 log = log w @ [(INFO, ''applying stencil to tri mesh: '' @ title_str (mesh_title tm))] \<rparr>"
        by simp_all
      then show ?thesis using a z by (simp add: mesh_ok_def)
    next
      case (Inr A')
      have "rect (?nj + 2 * ?b) (?ni + 2 * ?b) A'"
        using Inr rect_np_full2 by (rule apply_stencil_nanmean_rect)
      then have o: "rect ?nj ?ni (slice2 A' ?b (?b + ?nj) ?b (?b + ?ni))" by (rule slice2_rect)
      from u True Inr have
        "res = Inr \<lparr> mesh_model = mesh_model tm, mesh_t_side = mesh_t_side tm, mesh_nj = ?nj,
                        mesh_ni = ?ni, mesh_origin = mesh_origin tm, mesh_z_uom = mesh_z_uom tm,
                        mesh_title = title, mesh_surface_role = mesh_surface_role tm,
                        mesh_crs_uuid = mesh_crs_uuid tm, mesh_z_array = Suc (Suc (next_free w)) \<rparr>"
        and "w' = \<lparr> heap = (heap w)(next_free w := ?P, Suc (next_free w) := A',
                      Suc (Suc (next_free w)) := slice2 A' ?b (?b + ?nj) ?b (?b + ?ni)),
                 next_free = Suc (Suc (Suc (next_free w))),
                 log = log w @ [(INFO, ''applying stencil to tri mesh: '' @ title_str (mesh_title tm))] \<rparr>"
        by simp_all
      then show ?thesis using a z o by (simp add: mesh_ok_def)
    qed
  qed
qed

theorem apply_frame_witness:
  "mesh_ok \<lparr> mesh_model = 0, mesh_t_side = Fin 1, mesh_nj = 2, mesh_ni = 3,
        mesh_origin = (Fin 0, Fin 0, Fin 0), mesh_z_uom = ''m'', mesh_title = Some ''t'',
        mesh_surface_role = ''map'', mesh_crs_uuid = ''u'', mesh_z_array = 0 \<rparr> \<lparr> heap = (\<lambda>a. [])(0 := [[Fin 1, Fin 2, NaN], [Fin 4, NaN, Fin 6]]), next_free = 1, log = [] \<rparr>
   \<and> heap (snd (apply_stencil exact_ops \<lparr> self_n = 2, self_pattern = [Fin 0, Fin (1 / 6)], self_start_ip = [- 1, - 1],
        self_row_length = [3, 2],
        self_half_hex = [[Fin (1 / 6), Fin 0, Fin (1 / 6)], [Fin (1 / 6), Fin (1 / 6), NaN]] \<rparr> \<lparr> mesh_model = 0, mesh_t_side = Fin 1, mesh_nj = 2, mesh_ni = 3,
        mesh_origin = (Fin 0, Fin 0, Fin 0), mesh_z_uom = ''m'', mesh_title = Some ''t'',
        mesh_surface_role = ''map'', mesh_crs_uuid = ''u'', mesh_z_array = 0 \<rparr> True None \<lparr> heap = (\<lambda>a. [])(0 := [[Fin 1, Fin 2, NaN], [Fin 4, NaN, Fin 6]]), next_free = 1, log = [] \<rparr>)) 0 = [[Fin 1, Fin 2, NaN], [Fin 4, NaN, Fin 6]]
   \<and> mesh_ok \<lparr> mesh_model = 0, mesh_t_side = Fin 1, mesh_nj = 2, mesh_ni = 3,
        mesh_origin = (Fin 0, Fin 0, Fin 0), mesh_z_uom = ''m'', mesh_title = Some ''t'',
        mesh_surface_role = ''map'', mesh_crs_uuid = ''u'', mesh_z_array = 0 \<rparr> (snd (apply_stencil exact_ops \<lparr> self_n = 2, self_pattern = [Fin 0, Fin (1 / 6)], self_start_ip = [- 1, - 1],
        self_row_length = [3, 2],
        self_half_hex = [[Fin (1 / 6), Fin 0, Fin (1 / 6)], [Fin (1 / 6), Fin (1 / 6), NaN]] \<rparr> \<lparr> mesh_model = 0, mesh_t_side = Fin 1, mesh_nj = 2, mesh_ni = 3,
        mesh_origin = (Fin 0, Fin 0, Fin 0), mesh_z_uom = ''m'', mesh_title = Some ''t'',
        mesh_surface_role = ''map'', mesh_crs_uuid = ''u'', mesh_z_array = 0 \<rparr> True None \<lparr> heap = (\<lambda>a. [])(0 := [[Fin 1, Fin 2, NaN], [Fin 4, NaN, Fin 6]]), next_free = 1, log = [] \<rparr>))
   \<and> fst (apply_stencil exact_ops \<lparr> self_n = 2, self_pattern = [Fin 0, Fin (1 / 6)], self_start_ip = [- 1, - 1],
        self_row_length = [3, 2],
        self_half_hex = [[Fin (1 / 6), Fin 0, Fin (1 / 6)], [Fin (1 / 6), Fin (1 / 6), NaN]] \<rparr> \<lparr> mesh_model = 0, mesh_t_side = Fin 1, mesh_nj = 2, mesh_ni = 3,
        mesh_origin = (Fin 0, Fin 0, Fin 0), mesh_z_uom = ''m'', mesh_title = Some ''t'',
        mesh_surface_role = ''map'', mesh_crs_uuid = ''u'', mesh_z_array = 0 \<rparr> True None \<lparr> heap = (\<lambda>a. [])(0 := [[Fin 1, Fin 2, NaN], [Fin 4, NaN, Fin 6]]), next_free = 1, log = [] \<rparr>)
       = Inr \<lparr> mesh_model = 0, mesh_t_side = Fin 1, mesh_nj = 2, mesh_ni = 3,
               mesh_origin = (Fin 0, Fin 0, Fin 0), mesh_z_uom = ''m'', mesh_title = None,
               mesh_surface_role = ''map'', mesh_crs_uuid = ''u'', mesh_z_array = 3 \<rparr>
   \<and> heap (snd (apply_stencil exact_ops \<lparr> self_n = 2, self_pattern = [Fin 0, Fin (1 / 6)], self_start_ip = [- 1, - 1],
        self_row_length = [3, 2],
        self_half_hex = [[Fin (1 / 6), Fin 0, Fin (1 / 6)], [Fin (1 / 6), Fin (1 / 6), NaN]] \<rparr> \<lparr> mesh_model = 0, mesh_t_side = Fin 1, mesh_nj = 2, mesh_ni = 3,
        mesh_origin = (Fin 0, Fin 0, Fin 0), mesh_z_uom = ''m'', mesh_title = Some ''t'',
        mesh_surface_role = ''map'', mesh_crs_uuid = ''u'', mesh_z_array = 0 \<rparr> True None \<lparr> heap = (\<lambda>a. [])(0 := [[Fin 1, Fin 2, NaN], [Fin 4, NaN, Fin 6]]), next_free = 1, log = [] \<rparr>)) 3
       = [[Fin 3, Fin (5 / 2), Fin 4], [Fin (3 / 2), Fin 4, NaN]]"
proof -
  have ok: "mesh_ok \<lparr> mesh_model = 0, mesh_t_side = Fin 1, mesh_nj = 2, mesh_ni = 3,
        mesh_origin = (Fin 0, Fin 0, Fin 0), mesh_z_uom = ''m'', mesh_title = Some ''t'',
        mesh_surface_role = ''map'', mesh_crs_uuid = ''u'', mesh_z_array = 0 \<rparr> \<lparr> heap = (\<lambda>a. [])(0 := [[Fin 1, Fin 2, NaN], [Fin 4, NaN, Fin 6]]), next_free = 1, log = [] \<rparr>"
    by (simp add: mesh_ok_def rect_def)
  have r: "fst (apply_stencil exact_ops \<lparr> self_n = 2, self_pattern = [Fin 0, Fin (1 / 6)], self_start_ip = [- 1, - 1],
        self_row_length = [3, 2],
        self_half_hex = [[Fin (1 / 6), Fin 0, Fin (1 / 6)], [Fin (1 / 6), Fin (1 / 6), NaN]] \<rparr> \<lparr> mesh_model = 0, mesh_t_side = Fin 1, mesh_nj = 2, mesh_ni = 3,
        mesh_origin = (Fin 0, Fin 0, Fin 0), mesh_z_uom = ''m'', mesh_title = Some ''t'',
        mesh_surface_role = ''map'', mesh_crs_uuid = ''u'', mesh_z_array = 0 \<rparr> True None \<lparr> heap = (\<lambda>a. [])(0 := [[Fin 1, Fin 2, NaN], [Fin 4, NaN, Fin 6]]), next_free = 1, log = [] \<rparr>)
       = Inr \<lparr> mesh_model = 0, mesh_t_side = Fin 1, mesh_nj = 2, mesh_ni = 3,
               mesh_origin = (Fin 0, Fin 0, Fin 0), mesh_z_uom = ''m'', mesh_title = None,
               mesh_surface_role = ''map'', mesh_crs_uuid = ''u'', mesh_z_array = 3 \<rparr>"
    by code_simp
  have h: "heap (snd (apply_stencil exact_ops \<lparr> self_n = 2, self_pattern = [Fin 0, Fin (1 / 6)], self_start_ip = [- 1, - 1],
        self_row_length = [3, 2],
        self_half_hex = [[Fin (1 / 6), Fin 0, Fin (1 / 6)], [Fin (1 / 6), Fin (1 / 6), NaN]] \<rparr> \<lparr> mesh_model = 0, mesh_t_side = Fin 1, mesh_nj = 2, mesh_ni = 3,
        mesh_origin = (Fin 0, Fin 0, Fin 0), mesh_z_uom = ''m'', mesh_title = Some ''t'',
        mesh_surface_role = ''map'', mesh_crs_uuid = ''u'', mesh_z_array = 0 \<rparr> True None \<lparr> heap = (\<lambda>a. [])(0 := [[Fin 1, Fin 2, NaN], [Fin 4, NaN, Fin 6]]), next_free = 1, log = [] \<rparr>)) 3
       = [[Fin 3, Fin (5 / 2), Fin 4], [Fin (3 / 2), Fin 4, NaN]]"
    by code_simp
  have e: "apply_stencil exact_ops \<lparr> self_n = 2, self_pattern = [Fin 0, Fin (1 / 6)], self_start_ip = [- 1, - 1],
        self_row_length = [3, 2],
        self_half_hex = [[Fin (1 / 6), Fin 0, Fin (1 / 6)], [Fin (1 / 6), Fin (1 / 6), NaN]] \<rparr> \<lparr> mesh_model = 0, mesh_t_side = Fin 1, mesh_nj = 2, mesh_ni = 3,
        mesh_origin = (Fin 0, Fin 0, Fin 0), mesh_z_uom = ''m'', mesh_title = Some ''t'',
        mesh_surface_role = ''map'', mesh_crs_uuid = ''u'', mesh_z_array = 0 \<rparr> True None \<lparr> heap = (\<lambda>a. [])(0 := [[Fin 1, Fin 2, NaN], [Fin 4, NaN, Fin 6]]), next_free = 1, log = [] \<rparr>
      = (fst (apply_stencil exact_ops \<lparr> self_n = 2, self_pattern = [Fin 0, Fin (1 / 6)], self_start_ip = [- 1, - 1],
        self_row_length = [3, 2],
        self_half_hex = [[Fin (1 / 6), Fin 0, Fin (1 / 6)], [Fin (1 / 6), Fin (1 / 6), NaN]] \<rparr> \<lparr> mesh_model = 0, mesh_t_side = Fin 1, mesh_nj = 2, mesh_ni = 3,
        mesh_origin = (Fin 0, Fin 0, Fin 0), mesh_z_uom = ''m'', mesh_title = Some ''t'',
        mesh_surface_role = ''map'', mesh_crs_uuid = ''u'', mesh_z_array = 0 \<rparr> True None \<lparr> heap = (\<lambda>a. [])(0 := [[Fin 1, Fin 2, NaN], [Fin 4, NaN, Fin 6]]), next_free = 1, log = [] \<rparr>), snd (apply_stencil exact_ops \<lparr> self_n = 2, self_pattern = [Fin 0, Fin (1 / 6)], self_start_ip = [- 1, - 1],
        self_row_length = [3, 2],
        self_half_hex = [[Fin (1 / 6), Fin 0, Fin (1 / 6)], [Fin (1 / 6), Fin (1 / 6), NaN]] \<rparr> \<lparr> mesh_model = 0, mesh_t_side = Fin 1, mesh_nj = 2, mesh_ni = 3,
        mesh_origin = (Fin 0, Fin 0, Fin 0), mesh_z_uom = ''m'', mesh_title = Some ''t'',
        mesh_surface_role = ''map'', mesh_crs_uuid = ''u'', mesh_z_array = 0 \<rparr> True None \<lparr> heap = (\<lambda>a. [])(0 := [[Fin 1, Fin 2, NaN], [Fin 4, NaN, Fin 6]]), next_free = 1, log = [] \<rparr>))"
    by simp
  show ?thesis
    using apply_frame [OF ok e] ok r h by simp
qed

section \<open>The convolution computes the specified cells\<close>

lemma apply_stencil_shaped:
  assumes ok: "mesh_ok tm w" and sh: "stencil_shape st"
  shows "\<exists>tm' w'. apply_stencil ops st tm True title w = (Inr tm', w')
     \<and> heap w' (mesh_z_array tm')
         = map (\<lambda>j. map (\<lambda>i. spec_cell ops st (heap w (mesh_z_array tm)) j i) [0..<mesh_ni tm])
             [0..<mesh_nj tm]"
proof -
  let ?b = "border_width (self_n st)"
  let ?nj = "mesh_nj tm" and ?ni = "mesh_ni tm"
  let ?z = "heap w (mesh_z_array tm)"
  have z: "rect ?nj ?ni ?z" using ok by (simp add: mesh_ok_def)
  have k: "apply_stencil_nanmean ops (self_n st) (self_start_ip st) (self_row_length st)
             (self_half_hex st) (padded ?b ?nj ?ni (op_nan ops) ?z)
             (np_full2 (?nj + 2 * ?b) (?ni + 2 * ?b) (op_nan ops)) ?b ?nj ?ni
           = Inr (grid ops ?b ?nj ?ni (spec_cell ops st ?z))"
    by (rule apply_stencil_nanmean_shaped [OF z sh le_border_width even_border_width])
  show ?thesis
    unfolding apply_stencil_unfold [OF ok] Let_def
    by (simp add: k slice2_grid)
qed

lemma spec_cell_all_missing:
  assumes "\<forall>t \<in> set (taps st j i). op_isnan ops (lattice_at ops z (fst t) (fst (snd t)))"
    and "\<not> op_nonzero ops (op_zero ops)"
  shows "spec_cell ops st z j i = op_nan ops"
proof -
  have "filter (\<lambda>vw. \<not> op_isnan ops (fst vw))
          (map (\<lambda>t. (lattice_at ops z (fst t) (fst (snd t)), snd (snd t))) (taps st j i)) = []"
    using assms(1) by (simp add: filter_empty_conv)
  then show ?thesis using assms(2) by (simp add: spec_cell_def Let_def)
qed

text \<open>
  Claim C1.  For every built stencil, every lattice and every output cell \<open>(j, i)\<close>,
  \<open>apply\<close> with \<open>handle_nan = True\<close> returns a lattice whose cell is
  \<open>weightedSum / weightTotal\<close> when \<open>weightTotal\<close> is not zero and missing otherwise,
  where each tap of the stencil whose source value is not missing adds value times
  weight to \<open>weightedSum\<close> and its weight to \<open>weightTotal\<close>, and a tap on a missing
  value (a \<open>NaN\<close> of the lattice, or a position outside it) adds to neither.  The sums,
  the products, the quotient and the test of the total are those of the arithmetic of
  the program, whatever it is, and the taps are added in the order the loops read
  them.  In particular a cell all of whose taps land on missing values is missing in the
  output (in any arithmetic in which \<open>np.NaN\<close> is a \<open>NaN\<close> and \<open>0.0 != 0.0\<close> is false).
\<close>

theorem apply_computes_spec_cells:
  assumes "TriMeshStencil_init ops a normalise = (Inr st, lg)" and "mesh_ok tm w"
    and "op_isnan ops (op_nan ops)" and "\<not> op_nonzero ops (op_zero ops)"
  shows "\<exists>tm' w'. apply_stencil ops st tm True title w = (Inr tm', w')
     \<and> heap w' (mesh_z_array tm')
         = map (\<lambda>j. map (\<lambda>i. spec_cell ops st (heap w (mesh_z_array tm)) j i) [0..<mesh_ni tm])
             [0..<mesh_nj tm]
     \<and> (\<forall>j i. j < mesh_nj tm \<and> i < mesh_ni tm \<longrightarrow>
           heap w' (mesh_z_array tm') ! j ! i = spec_cell ops st (heap w (mesh_z_array tm)) j i
           \<and> ((\<forall>t \<in> set (taps st j i).
                  op_isnan ops (lattice_at ops (heap w (mesh_z_array tm)) (fst t) (fst (snd t))))
                \<longrightarrow> op_isnan ops (heap w' (mesh_z_array tm') ! j ! i)))"
proof -
  from init_Inr [OF assms(1)] obtain p where "st = built ops p" by blast
  then have sh: "stencil_shape st" by (simp add: built_shape)
  from apply_stencil_shaped [OF assms(2) sh, where ops = ops and title = title] obtain tm' w' where
    r: "apply_stencil ops st tm True title w = (Inr tm', w')"
      "heap w' (mesh_z_array tm')
         = map (\<lambda>j. map (\<lambda>i. spec_cell ops st (heap w (mesh_z_array tm)) j i) [0..<mesh_ni tm])
             [0..<mesh_nj tm]"
    by blast
  have c: "heap w' (mesh_z_array tm') ! j ! i = spec_cell ops st (heap w (mesh_z_array tm)) j i"
    if "j < mesh_nj tm" "i < mesh_ni tm" for j i
    unfolding r(2) using that by simp
  have m: "op_isnan ops (spec_cell ops st (heap w (mesh_z_array tm)) j i)"
    if "\<forall>t \<in> set (taps st j i).
          op_isnan ops (lattice_at ops (heap w (mesh_z_array tm)) (fst t) (fst (snd t)))" for j i
    unfolding spec_cell_all_missing [OF that assms(4)] by (rule assms(3))
  show ?thesis
    using r c m by auto
qed

theorem apply_computes_spec_cells_witness:
  "TriMeshStencil_init exact_ops \<lparr> ndim = 1, entries = [Fin 0, Fin 1] \<rparr> (Some (Fin 1)) = (Inr \<lparr> self_n = 2, self_pattern = [Fin 0, Fin (1 / 6)], self_start_ip = [- 1, - 1],
        self_row_length = [3, 2],
        self_half_hex = [[Fin (1 / 6), Fin 0, Fin (1 / 6)], [Fin (1 / 6), Fin (1 / 6), NaN]] \<rparr>, [])
   \<and> mesh_ok \<lparr> mesh_model = 0, mesh_t_side = Fin 1, mesh_nj = 2, mesh_ni = 3,
        mesh_origin = (Fin 0, Fin 0, Fin 0), mesh_z_uom = ''m'', mesh_title = Some ''t'',
        mesh_surface_role = ''map'', mesh_crs_uuid = ''u'', mesh_z_array = 0 \<rparr> \<lparr> heap = (\<lambda>a. [])(0 := [[Fin 1, Fin 2, NaN], [Fin 4, NaN, Fin 6]]), next_free = 1, log = [] \<rparr>
   \<and> map (\<lambda>j. map (\<lambda>i. spec_cell exact_ops \<lparr> self_n = 2, self_pattern = [Fin 0, Fin (1 / 6)], self_start_ip = [- 1, - 1],
        self_row_length = [3, 2],
        self_half_hex = [[Fin (1 / 6), Fin 0, Fin (1 / 6)], [Fin (1 / 6), Fin (1 / 6), NaN]] \<rparr> [[Fin 1, Fin 2, NaN], [Fin 4, NaN, Fin 6]] j i) [0..<3]) [0..<2]
       = [[Fin 3, Fin (5 / 2), Fin 4], [Fin (3 / 2), Fin 4, NaN]]"
proof -
  have i: "TriMeshStencil_init exact_ops \<lparr> ndim = 1, entries = [Fin 0, Fin 1] \<rparr> (Some (Fin 1)) = (Inr \<lparr> self_n = 2, self_pattern = [Fin 0, Fin (1 / 6)], self_start_ip = [- 1, - 1],
        self_row_length = [3, 2],
        self_half_hex = [[Fin (1 / 6), Fin 0, Fin (1 / 6)], [Fin (1 / 6), Fin (1 / 6), NaN]] \<rparr>, [])"
    by code_simp
  have ok: "mesh_ok \<lparr> mesh_model = 0, mesh_t_side = Fin 1, mesh_nj = 2, mesh_ni = 3,
        mesh_origin = (Fin 0, Fin 0, Fin 0), mesh_z_uom = ''m'', mesh_title = Some ''t'',
        mesh_surface_role = ''map'', mesh_crs_uuid = ''u'', mesh_z_array = 0 \<rparr> \<lparr> heap = (\<lambda>a. [])(0 := [[Fin 1, Fin 2, NaN], [Fin 4, NaN, Fin 6]]), next_free = 1, log = [] \<rparr>"
    by (simp add: mesh_ok_def rect_def)
  have r: "fst (apply_stencil exact_ops \<lparr> self_n = 2, self_pattern = [Fin 0, Fin (1 / 6)], self_start_ip = [- 1, - 1],
        self_row_length = [3, 2],
        self_half_hex = [[Fin (1 / 6), Fin 0, Fin (1 / 6)], [Fin (1 / 6), Fin (1 / 6), NaN]] \<rparr> \<lparr> mesh_model = 0, mesh_t_side = Fin 1, mesh_nj = 2, mesh_ni = 3,
        mesh_origin = (Fin 0, Fin 0, Fin 0), mesh_z_uom = ''m'', mesh_title = Some ''t'',
        mesh_surface_role = ''map'', mesh_crs_uuid = ''u'', mesh_z_array = 0 \<rparr> True None \<lparr> heap = (\<lambda>a. [])(0 := [[Fin 1, Fin 2, NaN], [Fin 4, NaN, Fin 6]]), next_free = 1, log = [] \<rparr>)
       = Inr \<lparr> mesh_model = 0, mesh_t_side = Fin 1, mesh_nj = 2, mesh_ni = 3,
               mesh_origin = (Fin 0, Fin 0, Fin 0), mesh_z_uom = ''m'', mesh_title = None,
               mesh_surface_role = ''map'', mesh_crs_uuid = ''u'', mesh_z_array = 3 \<rparr>"
    by code_simp
  have h: "heap (snd (apply_stencil exact_ops \<lparr> self_n = 2, self_pattern = [Fin 0, Fin (1 / 6)], self_start_ip = [- 1, - 1],
        self_row_length = [3, 2],
        self_half_hex = [[Fin (1 / 6), Fin 0, Fin (1 / 6)], [Fin (1 / 6), Fin (1 / 6), NaN]] \<rparr> \<lparr> mesh_model = 0, mesh_t_side = Fin 1, mesh_nj = 2, mesh_ni = 3,
        mesh_origin = (Fin 0, Fin 0, Fin 0), mesh_z_uom = ''m'', mesh_title = Some ''t'',
        mesh_surface_role = ''map'', mesh_crs_uuid = ''u'', mesh_z_array = 0 \<rparr> True None \<lparr> heap = (\<lambda>a. [])(0 := [[Fin 1, Fin 2, NaN], [Fin 4, NaN, Fin 6]]), next_free = 1, log = [] \<rparr>)) 3
       = [[Fin 3, Fin (5 / 2), Fin 4], [Fin (3 / 2), Fin 4, NaN]]"
    by code_simp
  have n: "op_isnan exact_ops (op_nan exact_ops)" "\<not> op_nonzero exact_ops (op_zero exact_ops)"
    by simp_all
  from apply_computes_spec_cells [OF i ok n, where title = None] obtain tm' w' where
    a: "apply_stencil exact_ops \<lparr> self_n = 2, self_pattern = [Fin 0, Fin (1 / 6)], self_start_ip = [- 1, - 1],
        self_row_length = [3, 2],
        self_half_hex = [[Fin (1 / 6), Fin 0, Fin (1 / 6)], [Fin (1 / 6), Fin (1 / 6), NaN]] \<rparr> \<lparr> mesh_model = 0, mesh_t_side = Fin 1, mesh_nj = 2, mesh_ni = 3,
        mesh_origin = (Fin 0, Fin 0, Fin 0), mesh_z_uom = ''m'', mesh_title = Some ''t'',
        mesh_surface_role = ''map'', mesh_crs_uuid = ''u'', mesh_z_array = 0 \<rparr> True None \<lparr> heap = (\<lambda>a. [])(0 := [[Fin 1, Fin 2, NaN], [Fin 4, NaN, Fin 6]]), next_free = 1, log = [] \<rparr> = (Inr tm', w')"
    and c: "heap w' (mesh_z_array tm')
         = map (\<lambda>j. map (\<lambda>i. spec_cell exact_ops \<lparr> self_n = 2, self_pattern = [Fin 0, Fin (1 / 6)], self_start_ip = [- 1, - 1],
        self_row_length = [3, 2],
        self_half_hex = [[Fin (1 / 6), Fin 0, Fin (1 / 6)], [Fin (1 / 6), Fin (1 / 6), NaN]] \<rparr> [[Fin 1, Fin 2, NaN], [Fin 4, NaN, Fin 6]] j i) [0..<3]) [0..<2]"
    by auto
  from a r have "mesh_z_array tm' = 3" by auto
  with a h c have "map (\<lambda>j. map (\<lambda>i. spec_cell exact_ops \<lparr> self_n = 2, self_pattern = [Fin 0, Fin (1 / 6)], self_start_ip = [- 1, - 1],
        self_row_length = [3, 2],
        self_half_hex = [[Fin (1 / 6), Fin 0, Fin (1 / 6)], [Fin (1 / 6), Fin (1 / 6), NaN]] \<rparr> [[Fin 1, Fin 2, NaN], [Fin 4, NaN, Fin 6]] j i) [0..<3]) [0..<2]
       = [[Fin 3, Fin (5 / 2), Fin 4], [Fin (3 / 2), Fin 4, NaN]]"
    by simp
  with i ok show ?thesis by blast
qed

section \<open>Array accesses of the convolution loop\<close>

lemma tap_bounds_int:
  fixes jp ip n b j nj i ni :: nat
  assumes "jp < n" "ip < 2 * n - 1 - jp" "n \<le> b"
    and "b \<le> j" "j < b + nj" "b \<le> i" "i < b + ni"
  shows "0 \<le> int j - int jp" "int j + int jp < int (nj + 2 * b)"
    and "0 \<le> int i + (- (int n - 1) + int (jp div 2)) + int ip + int ((jp mod 2) * (j mod 2))"
    and "int i + (- (int n - 1) + int (jp div 2)) + int ip + int ((jp mod 2) * (j mod 2))
         < int (ni + 2 * b)"
proof -
  define js where "js = (jp mod 2) * (j mod 2)"
  have "j mod 2 \<le> 1" by arith
  then have js: "js \<le> jp mod 2"
    unfolding js_def using mult_le_mono2 [of "j mod 2" 1 "jp mod 2"] by simp
  have j': "j - b < nj" and i': "i - b < ni" using assms by linarith+
  note tb = tap_bounds [OF assms(1,2,3) j' i' js]
  have bj: "b + (j - b) = j" and bi: "b + (i - b) = i" using assms by linarith+
  note tb' = tb [unfolded bj bi]
  have n1: "int (n - 1) = int n - 1" using assms(1) by linarith
  show "0 \<le> int j - int jp" using assms by linarith
  show "int j + int jp < int (nj + 2 * b)" using tb'(2) by linarith
  have "int (n - 1) \<le> int (i + jp div 2 + ip + js)" using tb'(3) by (rule iffD2 [OF of_nat_le_iff])
  then show "0 \<le> int i + (- (int n - 1) + int (jp div 2)) + int ip + int ((jp mod 2) * (j mod 2))"
    unfolding js_def [symmetric] n1 by simp
  have "int (i + jp div 2 + ip + js - (n - 1)) < int (ni + 2 * b)"
    using tb'(4) by (rule iffD2 [OF of_nat_less_iff])
  then have "int (i + jp div 2 + ip + js) - int (n - 1) < int (ni + 2 * b)"
    using tb'(3) by (simp add: of_nat_diff)
  then show "int i + (- (int n - 1) + int (jp div 2)) + int ip + int ((jp mod 2) * (j mod 2))
         < int (ni + 2 * b)"
    unfolding js_def [symmetric] n1 by simp
qed

lemma taps_cong:
  assumes "self_n st' = self_n st" "self_start_ip st' = self_start_ip st"
    and "self_row_length st' = self_row_length st"
    and "\<And>jp ip. jp < self_n st \<Longrightarrow> ip < nat (self_row_length st ! jp) \<Longrightarrow>
           self_half_hex st' ! jp ! ip = self_half_hex st ! jp ! ip"
  shows "taps st' j i = taps st j i"
proof -
  have row: "concat (map (slot_taps st' j i jp) [0..<nat (self_row_length st ! jp)])
      = concat (map (slot_taps st j i jp) [0..<nat (self_row_length st ! jp)])"
    if jp: "jp \<in> set [0..<self_n st]" for jp
  proof -
    have "map (slot_taps st' j i jp) [0..<nat (self_row_length st ! jp)]
        = map (slot_taps st j i jp) [0..<nat (self_row_length st ! jp)]"
    proof (rule map_cong [OF refl])
      fix ip assume "ip \<in> set [0..<nat (self_row_length st ! jp)]"
      then have "self_half_hex st' ! jp ! ip = self_half_hex st ! jp ! ip"
        using jp by (intro assms(4)) simp_all
      then show "slot_taps st' j i jp ip = slot_taps st j i jp ip"
        by (simp add: slot_taps_def assms(2))
    qed
    then show ?thesis by (rule arg_cong)
  qed
  have m: "map (\<lambda>jp. concat (map (slot_taps st' j i jp) [0..<nat (self_row_length st ! jp)]))
               [0..<self_n st]
      = map (\<lambda>jp. concat (map (slot_taps st j i jp) [0..<nat (self_row_length st ! jp)]))
               [0..<self_n st]"
    by (rule map_cong [OF refl]) (rule row)
  show ?thesis unfolding taps_def assms(1,3) by (rule arg_cong [OF m])
qed

lemma kernel_unused_slots:
  assumes sh: "stencil_shape st" and z: "rect nj ni z"
    and l: "length hh' = self_n st"
    and a: "\<And>jp. jp < self_n st \<Longrightarrow>
         nat (self_row_length st ! jp) \<le> length (hh' ! jp)
         \<and> take (nat (self_row_length st ! jp)) (hh' ! jp)
           = take (nat (self_row_length st ! jp)) (self_half_hex st ! jp)"
  shows "apply_stencil_nanmean ops (self_n st) (self_start_ip st) (self_row_length st) hh'
           (padded (border_width (self_n st)) nj ni (op_nan ops) z)
           (np_full2 (nj + 2 * border_width (self_n st)) (ni + 2 * border_width (self_n st)) (op_nan ops))
           (border_width (self_n st)) nj ni
       = apply_stencil_nanmean ops (self_n st) (self_start_ip st) (self_row_length st) (self_half_hex st)
           (padded (border_width (self_n st)) nj ni (op_nan ops) z)
           (np_full2 (nj + 2 * border_width (self_n st)) (ni + 2 * border_width (self_n st)) (op_nan ops))
           (border_width (self_n st)) nj ni"
proof -
  let ?b = "border_width (self_n st)"
  let ?st' = "st\<lparr> self_half_hex := hh' \<rparr>"
  have sh': "stencil_shape ?st'"
    using sh l a unfolding stencil_shape_def by simp
  have w: "self_half_hex ?st' ! jp ! ip = self_half_hex st ! jp ! ip"
    if "jp < self_n st" "ip < nat (self_row_length st ! jp)" for jp ip
  proof -
    have "hh' ! jp ! ip = take (nat (self_row_length st ! jp)) (hh' ! jp) ! ip"
      using that(2) by simp
    also have "\<dots> = take (nat (self_row_length st ! jp)) (self_half_hex st ! jp) ! ip"
      using a [OF that(1)] by simp
    also have "\<dots> = self_half_hex st ! jp ! ip" using that(2) by simp
    finally show ?thesis by simp
  qed
  have t: "taps ?st' j i = taps st j i" for j i
  proof (rule taps_cong)
    fix jp ip assume "jp < self_n st" "ip < nat (self_row_length st ! jp)"
    then show "self_half_hex ?st' ! jp ! ip = self_half_hex st ! jp ! ip" by (rule w)
  qed simp_all
  have c: "spec_cell ops ?st' z = spec_cell ops st z"
    by (simp add: fun_eq_iff spec_cell_def t)
  have "apply_stencil_nanmean ops (self_n ?st') (self_start_ip ?st') (self_row_length ?st')
           (self_half_hex ?st') (padded ?b nj ni (op_nan ops) z)
           (np_full2 (nj + 2 * ?b) (ni + 2 * ?b) (op_nan ops)) ?b nj ni
       = Inr (grid ops ?b nj ni (spec_cell ops ?st' z))"
    using apply_stencil_nanmean_shaped [OF z sh', of ?b] le_border_width [of "self_n st"]
      even_border_width [of "self_n st"] by simp
  then show ?thesis
    unfolding c apply_stencil_nanmean_shaped [OF z sh le_border_width even_border_width]
    by simp
qed

text \<open>
  Claim C5.  For a built stencil of size \<open>n\<close> and a lattice of shape \<open>(nj, ni)\<close>, with
  the border \<open>n\<close> rounded up to the next even integer, every index the convolution
  loop uses, for \<open>j\<close> in \<open>[border, border + nj)\<close>, \<open>i\<close> in \<open>[border, border + ni)\<close>,
  \<open>jp\<close> in \<open>[0, n - 1]\<close> and \<open>ip\<close> in \<open>[0, row_length[jp])\<close>, is within its array: the
  rows \<open>j - jp\<close> and \<open>j + jp\<close> and the column \<open>i + start_ip[jp] + ip + js_odd\<close> of the
  padded buffer, the cell \<open>(j, i)\<close> written, and the row \<open>jp\<close> and slot \<open>ip\<close> of the
  stencil arrays; so the kernel raises no index error.  The loop reads only the first
  \<open>row_length[jp]\<close> slots of each weight row: whatever the other slots of the buffer
  hold, the result is the same.
\<close>

theorem convolution_in_bounds:
  assumes "TriMeshStencil_init ops a normalise = (Inr st, lg)" and "rect nj ni z"
  shows "(\<forall>j i jp ip.
        border_width (self_n st) \<le> j \<and> j < border_width (self_n st) + nj
        \<and> border_width (self_n st) \<le> i \<and> i < border_width (self_n st) + ni
        \<and> jp < self_n st \<and> ip < nat (self_row_length st ! jp)
        \<longrightarrow> 0 \<le> int j - int jp
          \<and> int j + int jp < int (nj + 2 * border_width (self_n st))
          \<and> 0 \<le> int i + self_start_ip st ! jp + int ip + int ((jp mod 2) * (j mod 2))
          \<and> int i + self_start_ip st ! jp + int ip + int ((jp mod 2) * (j mod 2))
              < int (ni + 2 * border_width (self_n st))
          \<and> j < nj + 2 * border_width (self_n st) \<and> i < ni + 2 * border_width (self_n st)
          \<and> jp < length (self_start_ip st) \<and> jp < length (self_row_length st)
          \<and> jp < length (self_half_hex st) \<and> ip < length (self_half_hex st ! jp))
    \<and> (\<exists>out. apply_stencil_nanmean ops (self_n st) (self_start_ip st) (self_row_length st)
           (self_half_hex st) (padded (border_width (self_n st)) nj ni (op_nan ops) z)
           (np_full2 (nj + 2 * border_width (self_n st)) (ni + 2 * border_width (self_n st)) (op_nan ops))
           (border_width (self_n st)) nj ni = Inr out)
    \<and> (\<forall>hh'. length hh' = self_n st
          \<and> (\<forall>jp. jp < self_n st \<longrightarrow>
                nat (self_row_length st ! jp) \<le> length (hh' ! jp)
                \<and> take (nat (self_row_length st ! jp)) (hh' ! jp)
                  = take (nat (self_row_length st ! jp)) (self_half_hex st ! jp))
          \<longrightarrow> apply_stencil_nanmean ops (self_n st) (self_start_ip st) (self_row_length st) hh'
                (padded (border_width (self_n st)) nj ni (op_nan ops) z)
                (np_full2 (nj + 2 * border_width (self_n st)) (ni + 2 * border_width (self_n st)) (op_nan ops))
                (border_width (self_n st)) nj ni
              = apply_stencil_nanmean ops (self_n st) (self_start_ip st) (self_row_length st)
                (self_half_hex st) (padded (border_width (self_n st)) nj ni (op_nan ops) z)
                (np_full2 (nj + 2 * border_width (self_n st)) (ni + 2 * border_width (self_n st)) (op_nan ops))
                (border_width (self_n st)) nj ni)"
proof -
  let ?b = "border_width (self_n st)"
  from init_Inr [OF assms(1)] obtain p where "st = built ops p" by blast
  then have sh: "stencil_shape st" by (simp add: built_shape)
  have 1: "0 \<le> int j - int jp
          \<and> int j + int jp < int (nj + 2 * ?b)
          \<and> 0 \<le> int i + self_start_ip st ! jp + int ip + int ((jp mod 2) * (j mod 2))
          \<and> int i + self_start_ip st ! jp + int ip + int ((jp mod 2) * (j mod 2))
              < int (ni + 2 * ?b)
          \<and> j < nj + 2 * ?b \<and> i < ni + 2 * ?b
          \<and> jp < length (self_start_ip st) \<and> jp < length (self_row_length st)
          \<and> jp < length (self_half_hex st) \<and> ip < length (self_half_hex st ! jp)"
    if r: "?b \<le> j" "j < ?b + nj" "?b \<le> i" "i < ?b + ni" "jp < self_n st"
      "ip < nat (self_row_length st ! jp)" for j i jp ip
  proof -
    have ip: "ip < 2 * self_n st - 1 - jp"
      using r(6) unfolding shape_row_length_nat [OF sh r(5)] .
    note tb = tap_bounds_int [OF r(5) ip le_border_width r(1,2,3,4)]
    have "ip < length (self_half_hex st ! jp)"
      using r(6) shape_slots [OF sh r(5)] by linarith
    then show ?thesis
      unfolding shape_start_ip [OF sh r(5)] shape_lengths [OF sh]
      using tb r by simp
  qed
  have 2: "\<exists>out. apply_stencil_nanmean ops (self_n st) (self_start_ip st) (self_row_length st)
           (self_half_hex st) (padded ?b nj ni (op_nan ops) z)
           (np_full2 (nj + 2 * ?b) (ni + 2 * ?b) (op_nan ops)) ?b nj ni = Inr out"
    unfolding apply_stencil_nanmean_shaped [OF assms(2) sh le_border_width even_border_width]
    by simp
  have 3: "apply_stencil_nanmean ops (self_n st) (self_start_ip st) (self_row_length st) hh'
                (padded ?b nj ni (op_nan ops) z) (np_full2 (nj + 2 * ?b) (ni + 2 * ?b) (op_nan ops)) ?b nj ni
              = apply_stencil_nanmean ops (self_n st) (self_start_ip st) (self_row_length st)
                (self_half_hex st) (padded ?b nj ni (op_nan ops) z)
                (np_full2 (nj + 2 * ?b) (ni + 2 * ?b) (op_nan ops)) ?b nj ni"
    if "length hh' = self_n st"
      "\<forall>jp. jp < self_n st \<longrightarrow>
                nat (self_row_length st ! jp) \<le> length (hh' ! jp)
                \<and> take (nat (self_row_length st ! jp)) (hh' ! jp)
                  = take (nat (self_row_length st ! jp)) (self_half_hex st ! jp)" for hh'
    using sh assms(2) that(1) by (rule kernel_unused_slots) (use that(2) in blast)
  from 1 2 3 show ?thesis by blast
qed

theorem convolution_in_bounds_witness:
  "TriMeshStencil_init exact_ops \<lparr> ndim = 1, entries = [Fin 0, Fin 1] \<rparr> (Some (Fin 1)) = (Inr \<lparr> self_n = 2, self_pattern = [Fin 0, Fin (1 / 6)], self_start_ip = [- 1, - 1],
        self_row_length = [3, 2],
        self_half_hex = [[Fin (1 / 6), Fin 0, Fin (1 / 6)], [Fin (1 / 6), Fin (1 / 6), NaN]] \<rparr>, [])
   \<and> rect 2 3 [[Fin 1, Fin 2, NaN], [Fin 4, NaN, Fin 6]]
   \<and> border_width 2 = 2
   \<and> (0::int) \<le> int 3 - int 1 \<and> int 3 + int 1 < int (2 + 2 * 2)
   \<and> (0::int) \<le> int 4 + [- 1, - 1] ! 1 + int 1 + int ((1 mod 2) * (3 mod 2))
   \<and> int 4 + [- 1, - 1] ! 1 + int 1 + int ((1 mod 2) * (3 mod 2)) < int (3 + 2 * 2)
   \<and> apply_stencil_nanmean exact_ops 2 [- 1, - 1] [3, 2]
        [[Fin (1 / 6), Fin 0, Fin (1 / 6)], [Fin (1 / 6), Fin (1 / 6), Fin 7]]
        (padded 2 2 3 NaN [[Fin 1, Fin 2, NaN], [Fin 4, NaN, Fin 6]]) (np_full2 (2 + 2 * 2) (3 + 2 * 2) NaN) 2 2 3
      = apply_stencil_nanmean exact_ops 2 [- 1, - 1] [3, 2]
        [[Fin (1 / 6), Fin 0, Fin (1 / 6)], [Fin (1 / 6), Fin (1 / 6), NaN]]
        (padded 2 2 3 NaN [[Fin 1, Fin 2, NaN], [Fin 4, NaN, Fin 6]]) (np_full2 (2 + 2 * 2) (3 + 2 * 2) NaN) 2 2 3"
proof -
  have i: "TriMeshStencil_init exact_ops \<lparr> ndim = 1, entries = [Fin 0, Fin 1] \<rparr> (Some (Fin 1)) = (Inr \<lparr> self_n = 2, self_pattern = [Fin 0, Fin (1 / 6)], self_start_ip = [- 1, - 1],
        self_row_length = [3, 2],
        self_half_hex = [[Fin (1 / 6), Fin 0, Fin (1 / 6)], [Fin (1 / 6), Fin (1 / 6), NaN]] \<rparr>, [])"
    by code_simp
  have z: "rect 2 3 [[Fin 1, Fin 2, NaN], [Fin 4, NaN, Fin 6]]"
    by (simp add: rect_def)
  have b: "border_width 2 = 2" by (simp add: border_width_def)
  have s: "\<forall>jp. jp < (2::nat) \<longrightarrow>
        nat ([3, 2] ! jp) \<le> length ([[Fin (1 / 6), Fin 0, Fin (1 / 6)], [Fin (1 / 6), Fin (1 / 6), Fin 7]] ! jp)
        \<and> take (nat ([3, 2] ! jp)) ([[Fin (1 / 6), Fin 0, Fin (1 / 6)], [Fin (1 / 6), Fin (1 / 6), Fin 7]] ! jp)
          = take (nat ([3, 2] ! jp)) ([[Fin (1 / 6), Fin 0, Fin (1 / 6)], [Fin (1 / 6), Fin (1 / 6), NaN]] ! jp)"
    by (simp add: less_Suc_eq numeral_2_eq_2)
  show ?thesis
    using convolution_in_bounds [OF i z] i z s by (simp add: b)
qed


section \<open>A stencil with a centre weight only\<close>

lemma hex_distance_pos:
  assumes "jp < n" "ip < 2 * n - 1 - jp" "jp \<noteq> 0 \<or> ip \<noteq> n - 1"
  shows "0 < hex_distance n jp ip"
proof (cases "jp = 0")
  case False
  then show ?thesis by (simp add: hex_distance_def Let_def)
next
  case True
  with assms(3) have ne: "ip \<noteq> n - 1" by simp
  consider (left) "ip < n - 1 - jp" | (right) "n \<le> ip" using ne True assms by linarith
  then show ?thesis
  proof cases
    case left
    from hex_distance_left [OF assms(1) left] left show ?thesis by linarith
  next
    case right
    from hex_distance_right [OF assms(1) right] right show ?thesis by linarith
  qed
qed

lemma centre_only_weight:
  assumes p: "p = c # replicate k zero"
    and jp: "jp < length p" and ip: "ip < 2 * length p - 1 - jp"
    and ne: "jp \<noteq> 0 \<or> ip \<noteq> length p - 1"
  shows "self_half_hex (built ops p) ! jp ! ip = zero"
proof -
  from row_values_nth [OF jp ip]
  have d: "hex_distance (length p) jp ip < length p" by simp
  from hex_distance_pos [OF jp ip ne] obtain d' where d': "hex_distance (length p) jp ip = Suc d'"
    by (cases "hex_distance (length p) jp ip") simp_all
  have lp: "length p = Suc k" unfolding p by simp
  have "d' < k" using d d' lp by simp
  then have "p ! Suc d' = zero" unfolding p by simp
  then have "p ! hex_distance (length p) jp ip = zero" using d' by simp
  then show ?thesis unfolding built_weight [OF jp ip] .
qed

lemma centre_weight:
  assumes "p = c # replicate k zero"
  shows "self_half_hex (built ops p) ! 0 ! (length p - 1) = c"
proof -
  have l: "0 < length p" "length p - 1 < 2 * length p - 1 - 0" using assms by simp_all
  have "hex_distance (length p) 0 (length p - 1) = 0"
    using l by (simp add: hex_distance_def Let_def of_nat_diff)
  then show ?thesis unfolding built_weight [OF l] using assms by simp
qed

lemma fold_fixed:
  "(\<And>x. x \<in> set xs \<Longrightarrow> f x s = s) \<Longrightarrow> fold f xs s = s"
  by (induction xs) simp_all

lemma tapstep_zero_weight:
  assumes nan: "op_isnan ops (op_nan ops)"
    and add0: "\<forall>x. op_add ops x (op_zero ops) = x"
    and vals: "\<forall>row \<in> set z. \<forall>v \<in> set row. op_mul ops v (op_zero ops) = op_zero ops"
  shows "tapstep ops z (r, c, op_zero ops) acc = acc"
proof (cases "0 \<le> r \<and> r < int (length z) \<and> 0 \<le> c \<and> c < int (length (z ! nat r))")
  case True
  then have "nat r < length z" "nat c < length (z ! nat r)" by linarith+
  then have "z ! nat r \<in> set z" "z ! nat r ! nat c \<in> set (z ! nat r)" by simp_all
  with vals have "op_mul ops (z ! nat r ! nat c) (op_zero ops) = op_zero ops" by blast
  then show ?thesis using True add0 by (simp add: tapstep_def accumulate_def lattice_at_def)
next
  case False
  then have "lattice_at ops z r c = op_nan ops" unfolding lattice_at_def by (simp only: if_False)
  then show ?thesis using nan by (simp add: tapstep_def accumulate_def)
qed

lemma slot_taps_zero_weight:
  assumes nan: "op_isnan ops (op_nan ops)"
    and add0: "\<forall>x. op_add ops x (op_zero ops) = x"
    and vals: "\<forall>row \<in> set z. \<forall>v \<in> set row. op_mul ops v (op_zero ops) = op_zero ops"
    and w: "self_half_hex st ! jp ! ip = op_zero ops"
  shows "fold (tapstep ops z) (slot_taps st j i jp ip) acc = acc"
  using w by (simp add: slot_taps_def Let_def tapstep_zero_weight [OF nan add0 vals])

lemma centre_only_row:
  assumes nan: "op_isnan ops (op_nan ops)"
    and add0: "\<forall>x. op_add ops x (op_zero ops) = x"
    and vals: "\<forall>row \<in> set z. \<forall>v \<in> set row. op_mul ops v (op_zero ops) = op_zero ops"
    and p: "p = c # replicate k (op_zero ops)"
    and jp: "jp < length p" "jp \<noteq> 0"
  shows "fold (\<lambda>ip. fold (tapstep ops z) (slot_taps (built ops p) j i jp ip))
           [0..<nat (self_row_length (built ops p) ! jp)] acc = acc"
proof (rule fold_fixed)
  fix ip assume "ip \<in> set [0..<nat (self_row_length (built ops p) ! jp)]"
  then have ip: "ip < 2 * length p - 1 - jp" unfolding built_row_length_nat [OF jp(1)] by simp
  from centre_only_weight [OF p jp(1) ip] jp(2)
  have "self_half_hex (built ops p) ! jp ! ip = op_zero ops" by simp
  then show "fold (tapstep ops z) (slot_taps (built ops p) j i jp ip) acc = acc"
    by (rule slot_taps_zero_weight [OF nan add0 vals])
qed

lemma centre_only_segment:
  assumes nan: "op_isnan ops (op_nan ops)"
    and add0: "\<forall>x. op_add ops x (op_zero ops) = x"
    and vals: "\<forall>row \<in> set z. \<forall>v \<in> set row. op_mul ops v (op_zero ops) = op_zero ops"
    and p: "p = c # replicate k (op_zero ops)"
    and seg: "\<forall>ip \<in> set ips. ip < 2 * length p - 1 \<and> ip \<noteq> length p - 1"
  shows "fold (\<lambda>ip. fold (tapstep ops z) (slot_taps (built ops p) j i 0 ip)) ips acc = acc"
proof (rule fold_fixed)
  fix ip assume "ip \<in> set ips"
  with seg have ip: "ip < 2 * length p - 1 - 0" "ip \<noteq> length p - 1" by simp_all
  have l: "0 < length p" using p by simp
  from centre_only_weight [OF p l ip(1)] ip(2)
  have "self_half_hex (built ops p) ! 0 ! ip = op_zero ops" by simp
  then show "fold (tapstep ops z) (slot_taps (built ops p) j i 0 ip) acc = acc"
    by (rule slot_taps_zero_weight [OF nan add0 vals])
qed

lemma centre_tap:
  assumes p: "p = c # replicate k zero"
  shows "slot_taps (built ops p) j i 0 (length p - 1) = [(int j, int i, c)]"
proof -
  have l: "0 < length p" using p by simp
  have s: "self_start_ip (built ops p) ! 0 = - (int (length p) - 1)"
    using built_simps(7) [OF l, of ops] by simp
  show ?thesis
    unfolding slot_taps_def Let_def s centre_weight [OF p]
    using l by (cases p) simp_all
qed

lemma centre_only_fold:
  assumes nan: "op_isnan ops (op_nan ops)"
    and add0: "\<forall>x. op_add ops x (op_zero ops) = x"
    and vals: "\<forall>row \<in> set z. \<forall>v \<in> set row. op_mul ops v (op_zero ops) = op_zero ops"
    and p: "p = c # replicate k (op_zero ops)"
  shows "fold (tapstep ops z) (taps (built ops p) j i) acc = tapstep ops z (int j, int i, c) acc"
proof -
  let ?st = "built ops p"
  let ?row = "\<lambda>jp. fold (\<lambda>ip. fold (tapstep ops z) (slot_taps ?st j i jp ip))
                 [0..<nat (self_row_length ?st ! jp)]"
  have l: "0 < length p" using p by simp
  have rows: "[0..<length p] = 0 # [1..<length p]" using l by (simp add: upt_conv_Cons)
  have slots: "[0..<2 * length p - 1 - 0] = [0..<length p - 1] @ (length p - 1) # [length p..<2 * length p - 1]"
  proof -
    have "2 * length p - 1 = length p - 1 + length p" using l by simp
    then have "[0..<2 * length p - 1] = [0..<length p - 1] @ [length p - 1..<2 * length p - 1]"
      using upt_add_eq_append [of 0 "length p - 1" "length p"] by simp
    moreover have "length p - 1 < 2 * length p - 1" "Suc (length p - 1) = length p"
      using l by linarith+
    then have "[length p - 1..<2 * length p - 1] = (length p - 1) # [length p..<2 * length p - 1]"
      using upt_conv_Cons [of "length p - 1" "2 * length p - 1"] by simp
    ultimately show ?thesis by simp
  qed
  have tail: "fold ?row [1..<length p] s = s" for s
  proof (rule fold_fixed)
    fix jp assume "jp \<in> set [1..<length p]"
    then have jp: "jp < length p" "jp \<noteq> 0" by simp_all
    show "?row jp s = s" by (rule centre_only_row [OF nan add0 vals p jp])
  qed
  have before: "fold (\<lambda>ip. fold (tapstep ops z) (slot_taps ?st j i 0 ip)) [0..<length p - 1] s = s" for s
    by (rule centre_only_segment [OF nan add0 vals p]) (use l in auto)
  have after: "fold (\<lambda>ip. fold (tapstep ops z) (slot_taps ?st j i 0 ip)) [length p..<2 * length p - 1] s = s" for s
    by (rule centre_only_segment [OF nan add0 vals p]) (use l in auto)
  have first: "?row 0 s = tapstep ops z (int j, int i, c) s" for s
    unfolding built_row_length_nat [OF l] slots
    by (simp only: fold_append fold.simps comp_apply id_apply before after centre_tap [OF p])
  have "fold (tapstep ops z) (taps ?st j i) acc = fold ?row [0..<length p] acc"
    unfolding taps_def fold_concat_map built_simps(1) ..
  also have "\<dots> = tapstep ops z (int j, int i, c) acc"
    unfolding rows by (simp only: fold.simps comp_apply tail first)
  finally show ?thesis .
qed

lemma centre_only_cell:
  assumes nan: "op_isnan ops (op_nan ops)"
    and add0: "\<forall>x. op_add ops x (op_zero ops) = x \<and> op_add ops (op_zero ops) x = x"
    and p: "p = c # replicate k (op_zero ops)"
    and c: "op_nonzero ops c"
    and z: "rect nj ni z"
    and vals: "\<forall>row \<in> set z. \<forall>v \<in> set row. \<not> op_isnan ops v
                 \<and> op_mul ops v (op_zero ops) = op_zero ops
                 \<and> op_div ops (op_mul ops v c) c = v"
    and j: "j < nj" and i: "i < ni"
  shows "spec_cell ops (built ops p) z j i = z ! j ! i"
proof -
  have a: "\<forall>x. op_add ops x (op_zero ops) = x" using add0 by simp
  have v: "\<forall>row \<in> set z. \<forall>v \<in> set row. op_mul ops v (op_zero ops) = op_zero ops"
    using vals by simp
  have lj: "j < length z" and li: "i < length (z ! j)"
    using z j i by (simp_all add: rect_def list_all_length)
  then have m: "z ! j \<in> set z" "z ! j ! i \<in> set (z ! j)" by simp_all
  with vals have q: "\<not> op_isnan ops (z ! j ! i)" "op_div ops (op_mul ops (z ! j ! i) c) c = z ! j ! i"
    by blast+
  have la: "lattice_at ops z (int j) (int i) = z ! j ! i" using lj li by (simp add: lattice_at_def)
  have "tapstep ops z (int j, int i, c) (op_zero ops, op_zero ops) = (op_mul ops (z ! j ! i) c, c)"
    using q(1) add0 by (simp add: tapstep_def accumulate_def la)
  then show ?thesis
    unfolding spec_cell_fold centre_only_fold [OF nan a v p] Let_def
    using c q(2) by simp
qed


lemma centre_only_apply:
  assumes ok: "mesh_ok tm w"
    and nan: "op_isnan ops (op_nan ops)"
    and add0: "\<forall>x. op_add ops x (op_zero ops) = x \<and> op_add ops (op_zero ops) x = x"
    and p: "p = c # replicate k (op_zero ops)"
    and c: "op_nonzero ops c"
    and vals: "\<forall>row \<in> set (heap w (mesh_z_array tm)). \<forall>v \<in> set row. \<not> op_isnan ops v
                 \<and> op_mul ops v (op_zero ops) = op_zero ops
                 \<and> op_div ops (op_mul ops v c) c = v"
  shows "\<exists>tm' w'. apply_stencil ops (built ops p) tm True title w = (Inr tm', w')
     \<and> heap w' (mesh_z_array tm') = heap w (mesh_z_array tm)"
proof -
  let ?z = "heap w (mesh_z_array tm)"
  have z: "rect (mesh_nj tm) (mesh_ni tm) ?z" using ok by (simp add: mesh_ok_def)
  from apply_stencil_shaped [OF ok built_shape, where ops = ops and title = title and p1 = p]
  obtain tm' w' where
    r: "apply_stencil ops (built ops p) tm True title w = (Inr tm', w')"
      "heap w' (mesh_z_array tm')
         = map (\<lambda>j. map (\<lambda>i. spec_cell ops (built ops p) ?z j i) [0..<mesh_ni tm])
             [0..<mesh_nj tm]"
    by blast
  have "map (\<lambda>j. map (\<lambda>i. spec_cell ops (built ops p) ?z j i) [0..<mesh_ni tm]) [0..<mesh_nj tm]
        = ?z"
  proof (rule rect_eqI [where H = "mesh_nj tm" and W = "mesh_ni tm"])
    show "rect (mesh_nj tm) (mesh_ni tm)
            (map (\<lambda>j. map (\<lambda>i. spec_cell ops (built ops p) ?z j i) [0..<mesh_ni tm])
               [0..<mesh_nj tm])"
      by (simp add: rect_def list_all_length)
    show "rect (mesh_nj tm) (mesh_ni tm) ?z" by (rule z)
  next
    fix j i assume ji: "j < mesh_nj tm" "i < mesh_ni tm"
    then show "map (\<lambda>j. map (\<lambda>i. spec_cell ops (built ops p) ?z j i) [0..<mesh_ni tm])
                 [0..<mesh_nj tm] ! j ! i = ?z ! j ! i"
      by (simp add: centre_only_cell [OF nan add0 p c z vals ji])
  qed
  with r show ?thesis by simp
qed

lemma init_unnormalised:
  assumes "TriMeshStencil_init ops a None = (Inr st, lg)"
  shows "st = built ops (entries a)"
  using init_Inr [OF assms] by (auto simp: normalise_pattern_def)

lemma exact_add_zero: "fadd x (Fin 0) = x" "fadd (Fin 0) x = x"
  by (cases x; simp)+

text \<open>
  In exact arithmetic every hypothesis on the arithmetic holds, for every centre
  weight other than zero and every lattice without \<open>NaN\<close>: there \<open>apply\<close> returns the
  field exactly.
\<close>

lemma centre_only_identity_exact:
  assumes init: "TriMeshStencil_init exact_ops a None = (Inr st, lg)"
    and pat: "entries a = Fin c # replicate k (Fin 0)"
    and c: "c \<noteq> 0"
    and ok: "mesh_ok tm w"
    and vals: "\<forall>row \<in> set (heap w (mesh_z_array tm)). \<forall>v \<in> set row. \<not> isnan v"
  shows "\<exists>tm' w'. apply_stencil exact_ops st tm True title w = (Inr tm', w')
     \<and> heap w' (mesh_z_array tm') = heap w (mesh_z_array tm)"
proof -
  have v: "\<not> op_isnan exact_ops v \<and> op_mul exact_ops v (op_zero exact_ops) = op_zero exact_ops
           \<and> op_div exact_ops (op_mul exact_ops v (Fin c)) (Fin c) = v"
    if "\<not> isnan v" for v
    using that c by (cases v) simp_all
  have vs: "\<forall>row \<in> set (heap w (mesh_z_array tm)). \<forall>v \<in> set row. \<not> op_isnan exact_ops v
                 \<and> op_mul exact_ops v (op_zero exact_ops) = op_zero exact_ops
                 \<and> op_div exact_ops (op_mul exact_ops v (Fin c)) (Fin c) = v"
    using vals v by blast
  have p: "entries a = Fin c # replicate k (op_zero exact_ops)" using pat by simp
  have a0: "\<forall>x. op_add exact_ops x (op_zero exact_ops) = x \<and> op_add exact_ops (op_zero exact_ops) x = x"
    by (simp add: exact_add_zero)
  have n: "op_isnan exact_ops (op_nan exact_ops)" "op_nonzero exact_ops (Fin c)" using c by simp_all
  show ?thesis
    unfolding init_unnormalised [OF init]
    by (rule centre_only_apply [OF ok n(1) a0 p n(2) vs])
qed



end
